theory Spec2Isabelle
  imports Main "HOL-Library.Word" "HOL-Library.Signed_Division"
begin

unbundle bit_operations_syntax

section \<open>Data model of uidgenerator.go\<close>

text \<open>
  Go's \<open>uint8\<close> and \<open>int8\<close> are \<open>8 word\<close>, \<open>uint64\<close> (the type \<open>UniqueID\<close>) and
  \<open>int64\<close> are \<open>64 word\<close>: \<open>+\<close>, \<open>-\<close> and \<open>*\<close> wrap around as in Go, a conversion
  between the signed and the unsigned type of one width keeps the bits, signed
  comparisons are \<open>\<le>s\<close> and \<open><s\<close>, \<open>x << n\<close> is \<open>push_bit n x\<close> (0 once \<open>n\<close> reaches the
  width, as in Go), \<open>x >> n\<close> is \<open>drop_bit n x\<close> on an unsigned and
  \<open>signed_drop_bit n x\<close> on a signed operand.
\<close>

type_synonym uint8 = "8 word"
type_synonym int8 = "8 word"
type_synonym int64 = "64 word"
type_synonym UniqueID = "64 word"

datatype error = ErrInvalidStringUID | ErrTooBigServerID | ErrTooLongID

record UidGeneratorConfig =
  EpochLen :: uint8
  SrvLen :: uint8
  CntLen :: uint8
  IntervalLen :: uint8
  TruncStr :: bool
  EpochStart :: int64
  SrvID :: int64
  strLen :: int8
  epochShift :: uint8
  epochMask :: UniqueID
  epochIota :: UniqueID
  maxSrv :: UniqueID
  srvMask :: UniqueID
  maxCnt :: UniqueID
  cntMask :: UniqueID
  interval :: int64
  timeMask :: int64

text \<open>
  The generator. The mutex \<open>mu\<close> is not modelled (calls are taken one at a time), and
  the field \<open>start\<close> is represented by what \<open>NextID\<close> reads through it: the elapsed
  nanoseconds \<open>time.Since(gen.start).Nanoseconds()\<close> are an argument of \<open>NextID\<close>.
\<close>

record UidGenerator =
  cfg :: UidGeneratorConfig
  epoch :: UniqueID
  srvID :: UniqueID
  cnt :: UniqueID

definition letters :: string where
  "letters = ''abcdefghijklmnopqrstuvwxyzABCDEF''"

definition letterLen :: nat where
  "letterLen = 5"

definition letterMask :: UniqueID where
  "letterMask = push_bit letterLen 1 - 1"

section \<open>Layout derivation\<close>

text \<open>
  \<open>update\<close> changes the configuration in place and returns an error or nil; the model
  returns the error or the updated configuration, each derived field computed in the
  order of the assignments and from the fields assigned before it. The sum \<open>idLen\<close> is
  a \<open>uint8\<close> sum.
  \<open>math.Ceil(float64(idLen) / letterLen)\<close> is computed on \<open>idLen \<le> 64\<close>, where the
  quotient of the two small integers and its ceiling are exact, so it is the integer
  ceiling of \<open>idLen / 5\<close>.
\<close>

definition update :: "UidGeneratorConfig \<Rightarrow> error + UidGeneratorConfig" where
  "update c =
    (let idLen = EpochLen c + SrvLen c + CntLen c in
     if idLen > 64 then Inl ErrTooLongID
     else
       let strLen' = of_nat ((unat idLen + letterLen - 1) div letterLen);
           epochShift' = SrvLen c + CntLen c;
           epochMask' = push_bit (unat epochShift') (push_bit (unat (EpochLen c)) 1 - 1);
           epochIota' = push_bit (unat epochShift') 1;
           maxSrv' = push_bit (unat (SrvLen c)) 1 - 1;
           srvMask' = push_bit (unat (CntLen c)) maxSrv';
           maxCnt' = push_bit (unat (CntLen c)) 1 - 1;
           cntMask' = maxCnt';
           IntervalLen' = (if IntervalLen c = 0 then 61 - EpochLen c else IntervalLen c);
           interval' = push_bit (unat IntervalLen') 1;
           timeMask' = interval' - 1
       in Inr (c\<lparr>IntervalLen := IntervalLen', strLen := strLen', epochShift := epochShift',
                 epochMask := epochMask', epochIota := epochIota', maxSrv := maxSrv',
                 srvMask := srvMask', maxCnt := maxCnt', cntMask := cntMask',
                 interval := interval', timeMask := timeMask'\<rparr>))"

definition SnowflakeConfig :: UidGeneratorConfig where
  "SnowflakeConfig =
    \<lparr>EpochLen = 41, SrvLen = 10, CntLen = 12, IntervalLen = 20, TruncStr = False,
     EpochStart = 1288834974, SrvID = 0, strLen = 0, epochShift = 0, epochMask = 0,
     epochIota = 0, maxSrv = 0, srvMask = 0, maxCnt = 0, cntMask = 0, interval = 0,
     timeMask = 0\<rparr>"

section \<open>Construction and issuance\<close>

definition NewUidGenerator :: "UidGeneratorConfig \<Rightarrow> UniqueID \<Rightarrow> error + UidGenerator" where
  "NewUidGenerator c prevID =
    (case update c of
       Inl err \<Rightarrow> Inl err
     | Inr c \<Rightarrow>
         if maxSrv c <s SrvID c then Inl ErrTooBigServerID
         else Inr \<lparr>cfg = c,
                   epoch = prevID AND epochMask c,
                   srvID = push_bit (unat (CntLen c)) (SrvID c),
                   cnt = prevID AND cntMask c\<rparr>)"

text \<open>
  \<open>NextID since gen\<close>: \<open>since\<close> is the \<open>int64\<close> read from the clock. The call to
  \<open>time.Sleep\<close> on exhaustion delays the caller and changes neither the state nor the
  result; its argument is \<open>sleepNsec\<close>. The result is the ID and the generator after
  the call.
\<close>

definition sleepNsec :: "UidGeneratorConfig \<Rightarrow> int64 \<Rightarrow> int64" where
  "sleepNsec c nowNanosecond = interval c - (nowNanosecond AND timeMask c)"

definition candidateEpoch :: "UidGenerator \<Rightarrow> int64 \<Rightarrow> UniqueID" where
  "candidateEpoch gen since =
    push_bit (unat (epochShift (cfg gen)))
      (signed_drop_bit (unat (IntervalLen (cfg gen))) since) AND epochMask (cfg gen)"

definition NextID :: "int64 \<Rightarrow> UidGenerator \<Rightarrow> UniqueID \<times> UidGenerator" where
  "NextID since gen =
    (let e = candidateEpoch gen since;
         gen =
           (if e \<le> epoch gen then
              let gen = gen\<lparr>cnt := cnt gen + 1\<rparr> in
              if cnt gen > maxCnt (cfg gen)
              then gen\<lparr>epoch := epoch gen + epochIota (cfg gen), cnt := 0\<rparr>
              else gen
            else gen\<lparr>epoch := e, cnt := 0\<rparr>);
         uid = epoch gen + srvID gen + cnt gen
     in (uid, gen))"

text \<open>A sequence of calls on one instance, one clock reading per call.\<close>

fun NextIDs :: "UidGenerator \<Rightarrow> int64 list \<Rightarrow> UniqueID list \<times> UidGenerator" where
  "NextIDs gen [] = ([], gen)"
| "NextIDs gen (t # ts) =
    (let (uid, gen') = NextID t gen; (ids, gen'') = NextIDs gen' ts in (uid # ids, gen''))"

text \<open>
  A call overflows the 64 bits of the ID when it takes the branch of the epoch that has
  not advanced and either the counter is exhausted while the stored epoch plus one
  quantum \<open>2 ^ epochShift\<close> reaches \<open>2 ^ 64\<close>, or the incremented counter itself wraps to 0
  (a counter field of 64 bits). A sequence of calls is free of overflow when no call of
  it overflows.
\<close>

definition overflows :: "int64 \<Rightarrow> UidGenerator \<Rightarrow> bool" where
  "overflows since gen \<longleftrightarrow>
    candidateEpoch gen since \<le> epoch gen \<and>
    (if maxCnt (cfg gen) < cnt gen + 1
     then 2 ^ 64 \<le> unat (epoch gen) + 2 ^ unat (epochShift (cfg gen))
     else cnt gen + 1 = 0)"

fun overflow_free :: "UidGenerator \<Rightarrow> int64 list \<Rightarrow> bool" where
  "overflow_free gen [] = True"
| "overflow_free gen (t # ts) = (\<not> overflows t gen \<and> overflow_free (snd (NextID t gen)) ts)"

text \<open>
  The invariant of a generator whose widths sum, as integers, to at most 64: the shifts
  and masks are those of \<open>update\<close> with \<open>epochShift = SrvLen + CntLen \<le> 64\<close>, the server field
  value and the stored epoch have no bit below their fields, and the stored counter is
  within the counter field. \<open>srv_fits\<close> says in addition that the server field value has
  no bit above its field.
\<close>

definition gen_inv :: "UidGenerator \<Rightarrow> bool" where
  "gen_inv g \<longleftrightarrow>
    unat (epochShift (cfg g)) \<le> 64 \<and>
    unat (epochShift (cfg g)) = unat (SrvLen (cfg g)) + unat (CntLen (cfg g)) \<and>
    epochIota (cfg g) = push_bit (unat (epochShift (cfg g))) 1 \<and>
    epochMask (cfg g) = push_bit (unat (epochShift (cfg g))) (mask (unat (EpochLen (cfg g)))) \<and>
    srvMask (cfg g) = push_bit (unat (CntLen (cfg g))) (mask (unat (SrvLen (cfg g)))) \<and>
    maxCnt (cfg g) = mask (unat (CntLen (cfg g))) \<and>
    cntMask (cfg g) = mask (unat (CntLen (cfg g))) \<and>
    2 ^ unat (CntLen (cfg g)) dvd unat (srvID g) \<and>
    2 ^ unat (epochShift (cfg g)) dvd unat (epoch g) \<and>
    cnt g \<le> maxCnt (cfg g) \<and>
    unat (EpochLen (cfg g)) + unat (epochShift (cfg g)) \<le> 64"

definition srv_fits :: "UidGenerator \<Rightarrow> bool" where
  "srv_fits g \<longleftrightarrow>
    unat (srvID g) + 2 ^ unat (CntLen (cfg g)) \<le> 2 ^ unat (epochShift (cfg g))"

definition ServerID :: "UidGenerator \<Rightarrow> UniqueID \<Rightarrow> int64" where
  "ServerID gen uid = signed_drop_bit (unat (CntLen (cfg gen))) (uid AND srvMask (cfg gen))"

definition Count :: "UidGenerator \<Rightarrow> UniqueID \<Rightarrow> int64" where
  "Count gen uid = uid AND cntMask (cfg gen)"

section \<open>The string codec\<close>

text \<open>
  \<open>decodeLetters\<close> is the array \<open>[256]byte\<close>, zeroed by Go, after the two loops of
  \<open>init\<close>; both loops run over \<open>0 \<le> i < len(letters)\<close>.
\<close>

definition decodeLetters :: "uint8 list" where
  "decodeLetters =
    (let t = replicate 256 0;
         t = fold (\<lambda>i t. t[i := 0xFF]) [0..<length letters] t;
         t = fold (\<lambda>i t. t[of_char (letters ! i) := of_nat i]) [0..<length letters] t
     in t)"

text \<open>
  The first loop of \<open>FromBase32\<close>, with its \<open>int8\<close> counter and the bound
  \<open>int8(len(str))\<close>; \<open>None\<close> is the early return with \<open>ErrInvalidStringUID\<close>. The
  index \<open>i\<close> is non-negative and below the bound, hence inside the string.
\<close>

function FromBase32_decode :: "string \<Rightarrow> int8 \<Rightarrow> UniqueID \<Rightarrow> (UniqueID \<times> int8) option" where
  "FromBase32_decode str i uid =
    (if i <s of_nat (length str) then
       let ch = decodeLetters ! of_char (str ! unat i) in
       if ch = 0xFF then None
       else FromBase32_decode str (i + 1) (push_bit letterLen uid + ucast ch)
     else Some (uid, i))"
  by pat_completeness auto
termination
proof (relation "measure (\<lambda>(str, i, uid). nat (sint (of_nat (length str) :: int8) - sint i))")
  fix str :: string and i :: int8 and uid :: UniqueID and ch :: uint8
  let ?n = "of_nat (length str) :: int8"
  assume "i <s ?n"
  then have less: "sint i < sint ?n" by (simp add: word_sless_alt)
  moreover have "sint ?n < 128" using sint_lt [of ?n] by simp
  moreover have "- 128 \<le> sint i" using sint_ge [of i] by simp
  ultimately have "sint (i + 1) = sint i + 1"
    by (simp add: sint_word_ariths signed_take_bit_int_eq_self)
  with less
  show "((str, i + 1, push_bit letterLen uid + ucast ch), (str, i, uid))
      \<in> measure (\<lambda>(str, i, uid). nat (sint (of_nat (length str) :: int8) - sint i))"
    by simp
qed simp

text \<open>The second loop: the missing letters count as zero groups.\<close>

function FromBase32_pad :: "int8 \<Rightarrow> int8 \<Rightarrow> UniqueID \<Rightarrow> UniqueID" where
  "FromBase32_pad n i uid =
    (if i <s n then FromBase32_pad n (i + 1) (push_bit letterLen uid) else uid)"
  by pat_completeness auto
termination
proof (relation "measure (\<lambda>(n, i, uid). nat (sint n - sint i))")
  fix n i :: int8 and uid :: UniqueID
  assume "i <s n"
  then have less: "sint i < sint n" by (simp add: word_sless_alt)
  moreover have "sint n < 128" using sint_lt [of n] by simp
  moreover have "- 128 \<le> sint i" using sint_ge [of i] by simp
  ultimately have "sint (i + 1) = sint i + 1"
    by (simp add: sint_word_ariths signed_take_bit_int_eq_self)
  with less
  show "((n, i + 1, push_bit letterLen uid), (n, i, uid))
      \<in> measure (\<lambda>(n, i, uid). nat (sint n - sint i))"
    by simp
qed simp

declare FromBase32_decode.simps [simp del]
declare FromBase32_pad.simps [simp del]

text \<open>\<open>FromBase32\<close> returns the pair of Go: the ID and the error, \<open>None\<close> for nil.\<close>

definition FromBase32 :: "UidGenerator \<Rightarrow> string \<Rightarrow> UniqueID \<times> error option" where
  "FromBase32 gen str =
    (case FromBase32_decode str 0 0 of
       None \<Rightarrow> (0, Some ErrInvalidStringUID)
     | Some (uid, i) \<Rightarrow> (FromBase32_pad (strLen (cfg gen)) i uid, None))"

text \<open>
  The truncation loop of \<open>ToBase32\<close> has no bound: \<open>None\<close> is the loop that never
  ends. The counter is an \<open>int8\<close> and wraps.
\<close>

partial_function (option) ToBase32_trunc :: "UniqueID \<Rightarrow> int8 \<Rightarrow> (UniqueID \<times> int8) option" where
  "ToBase32_trunc uid i =
    (if uid AND letterMask = 0 then ToBase32_trunc (drop_bit letterLen uid) (i - 1)
     else Some (uid, i))"

declare ToBase32_trunc.simps [code]

text \<open>The loop that writes the letters, from the last byte of \<open>b\<close> to the first.\<close>

function ToBase32_fill :: "string \<Rightarrow> int8 \<Rightarrow> UniqueID \<Rightarrow> string" where
  "ToBase32_fill b i uid =
    (if 0 \<le>s i then
       ToBase32_fill (b[unat i := letters ! unat (uid AND letterMask)]) (i - 1)
         (drop_bit letterLen uid)
     else b)"
  by pat_completeness auto
termination
proof (relation "measure (\<lambda>(b, i, uid). nat (sint i + 1))")
  fix b :: string and i :: int8 and uid :: UniqueID
  assume "0 \<le>s i"
  then have nonneg: "0 \<le> sint i" by (simp add: word_sle_eq)
  moreover have "sint i < 128" using sint_lt [of i] by simp
  ultimately have "sint (i - 1) = sint i - 1"
    by (simp add: sint_word_ariths signed_take_bit_int_eq_self)
  with nonneg
  show "((b[unat i := letters ! unat (uid AND letterMask)], i - 1, drop_bit letterLen uid), (b, i, uid))
      \<in> measure (\<lambda>(b, i, uid). nat (sint i + 1))"
    by simp
qed simp

declare ToBase32_fill.simps [simp del]

text \<open>
  \<open>make([]byte, i+1)\<close> panics at run time when the length \<open>i+1\<close> (an \<open>int8\<close>) is
  negative. The result of \<open>ToBase32\<close> is \<open>None\<close> when the call does not return,
  \<open>Some (Inl p)\<close> when it panics and \<open>Some (Inr s)\<close> when it returns \<open>s\<close>.
\<close>

datatype panic = MakesliceLenOutOfRange

definition ToBase32 :: "UidGenerator \<Rightarrow> UniqueID \<Rightarrow> (panic + string) option" where
  "ToBase32 gen uid =
    (case (if TruncStr (cfg gen) then ToBase32_trunc uid (strLen (cfg gen) - 1)
           else Some (uid, strLen (cfg gen) - 1)) of
       None \<Rightarrow> None
     | Some (uid, i) \<Rightarrow>
         if i + 1 <s 0 then Some (Inl MakesliceLenOutOfRange)
         else Some (Inr (ToBase32_fill (replicate (unat (i + 1)) (CHR 0x00)) i uid)))"

text \<open>
  The \<open>k\<close> low letters of an ID, the most significant first: what the fill loop writes
  into \<open>k\<close> bytes.
\<close>

fun lettersOf :: "nat \<Rightarrow> UniqueID \<Rightarrow> string" where
  "lettersOf 0 uid = []"
| "lettersOf (Suc k) uid =
    lettersOf k (drop_bit letterLen uid) @ [letters ! unat (uid AND letterMask)]"

section \<open>Time conversions\<close>

definition FromUnix :: "UidGenerator \<Rightarrow> int64 \<Rightarrow> UniqueID" where
  "FromUnix gen t =
    push_bit (unat (epochShift (cfg gen)))
      (drop_bit (unat (IntervalLen (cfg gen))) ((t - EpochStart (cfg gen)) * 1000000000))
    + srvID gen"

text \<open>Go's \<open>/\<close> and \<open>%\<close> on \<open>int64\<close> truncate towards zero: \<open>sdiv\<close> and \<open>smod\<close>.\<close>

definition Unix :: "UidGenerator \<Rightarrow> UniqueID \<Rightarrow> int64" where
  "Unix gen uid =
    (let nsec = push_bit (unat (IntervalLen (cfg gen))) (drop_bit (unat (epochShift (cfg gen))) uid);
         unix = word_of_int (sint nsec sdiv 1000000000);
         unix = (if 500000000 \<le> sint nsec smod 1000000000 then unix + 1 else unix)
     in unix + EpochStart (cfg gen))"

section \<open>Facts about the derived layout\<close>

lemma update_Inl:
  "update c = Inl e \<longleftrightarrow> (64 < EpochLen c + SrvLen c + CntLen c \<and> e = ErrTooLongID)"
  by (auto simp: update_def Let_def)

lemma update_ok: "EpochLen c + SrvLen c + CntLen c \<le> 64 \<Longrightarrow> \<exists>c'. update c = Inr c'"
  by (simp add: update_def Let_def leD)

lemma update_fields:
  assumes "update c = Inr c'"
  shows "EpochLen c' = EpochLen c" and "SrvLen c' = SrvLen c" and "CntLen c' = CntLen c"
    and "SrvID c' = SrvID c" and "EpochStart c' = EpochStart c" and "TruncStr c' = TruncStr c"
    and "epochShift c' = SrvLen c + CntLen c"
    and "epochMask c' = push_bit (unat (SrvLen c + CntLen c)) (mask (unat (EpochLen c)))"
    and "epochIota c' = push_bit (unat (SrvLen c + CntLen c)) 1"
    and "maxSrv c' = mask (unat (SrvLen c))"
    and "srvMask c' = push_bit (unat (CntLen c)) (mask (unat (SrvLen c)))"
    and "maxCnt c' = mask (unat (CntLen c))"
    and "cntMask c' = mask (unat (CntLen c))"
    and "strLen c' = of_nat ((unat (EpochLen c + SrvLen c + CntLen c) + letterLen - 1) div letterLen)"
    and "IntervalLen c' = (if IntervalLen c = 0 then 61 - EpochLen c else IntervalLen c)"
    and "EpochLen c + SrvLen c + CntLen c \<le> 64"
proof -
  have le: "\<not> 64 < EpochLen c + SrvLen c + CntLen c"
    using assms update_Inl [of c ErrTooLongID] by auto
  then show "EpochLen c + SrvLen c + CntLen c \<le> 64" by simp
  have eq: "c' = c\<lparr>IntervalLen := (if IntervalLen c = 0 then 61 - EpochLen c else IntervalLen c),
      strLen := of_nat ((unat (EpochLen c + SrvLen c + CntLen c) + letterLen - 1) div letterLen),
      epochShift := SrvLen c + CntLen c,
      epochMask := push_bit (unat (SrvLen c + CntLen c)) (mask (unat (EpochLen c))),
      epochIota := push_bit (unat (SrvLen c + CntLen c)) 1,
      maxSrv := mask (unat (SrvLen c)),
      srvMask := push_bit (unat (CntLen c)) (mask (unat (SrvLen c))),
      maxCnt := mask (unat (CntLen c)),
      cntMask := mask (unat (CntLen c)),
      interval := push_bit (unat (if IntervalLen c = 0 then 61 - EpochLen c else IntervalLen c)) 1,
      timeMask := push_bit (unat (if IntervalLen c = 0 then 61 - EpochLen c else IntervalLen c)) 1 - 1\<rparr>"
    using assms le by (simp add: update_def Let_def mask_eq_exp_minus_1)
  show "EpochLen c' = EpochLen c" and "SrvLen c' = SrvLen c" and "CntLen c' = CntLen c"
    and "SrvID c' = SrvID c" and "EpochStart c' = EpochStart c" and "TruncStr c' = TruncStr c"
    and "epochShift c' = SrvLen c + CntLen c"
    and "epochMask c' = push_bit (unat (SrvLen c + CntLen c)) (mask (unat (EpochLen c)))"
    and "epochIota c' = push_bit (unat (SrvLen c + CntLen c)) 1"
    and "maxSrv c' = mask (unat (SrvLen c))"
    and "srvMask c' = push_bit (unat (CntLen c)) (mask (unat (SrvLen c)))"
    and "maxCnt c' = mask (unat (CntLen c))"
    and "cntMask c' = mask (unat (CntLen c))"
    and "strLen c' = of_nat ((unat (EpochLen c + SrvLen c + CntLen c) + letterLen - 1) div letterLen)"
    and "IntervalLen c' = (if IntervalLen c = 0 then 61 - EpochLen c else IntervalLen c)"
    by (subst eq, simp)+
qed

lemma sint_small: "unat (w :: 64 word) < 2 ^ 63 \<Longrightarrow> sint w = int (unat w)"
proof -
  assume "unat w < 2 ^ 63"
  then have "int (unat w) < int (2 ^ 63)" by (simp only: of_nat_less_iff)
  then have "uint w < int (2 ^ 63)" by (simp only: uint_nat)
  then have "uint w < 2 ^ 63" by simp
  moreover have "- (2 ^ 63) \<le> uint w"
  proof -
    have "0 \<le> uint w" by (rule uint_ge_0)
    moreover have "- (2 ^ 63) \<le> (0::int)" by simp
    ultimately show ?thesis by (rule order_trans [rotated])
  qed
  ultimately have stb: "signed_take_bit 63 (uint w) = uint w"
    by (rule signed_take_bit_int_eq_self [rotated])
  have "sint w = signed_take_bit (LENGTH(64) - Suc 0) (uint w)" by (rule sint_uint)
  also have "LENGTH(64) - Suc 0 = 63" by simp
  finally have "sint w = uint w" using stb by (simp only:)
  then show ?thesis by (simp only: uint_nat)
qed

lemma unat_push_bit64: "unat (push_bit n w :: 64 word) = (unat w * 2 ^ n) mod 2 ^ 64"
proof -
  have "unat (push_bit n w) = take_bit LENGTH(64) (push_bit n (unat w))"
    by (rule unsigned_push_bit_eq)
  also have "\<dots> = (unat w * 2 ^ n) mod 2 ^ 64"
    by (simp add: take_bit_eq_mod push_bit_eq_mult)
  finally show ?thesis .
qed

lemma unat_drop_bit64: "unat (drop_bit n w :: 64 word) = unat w div 2 ^ n"
proof -
  have "unat (drop_bit n w) = drop_bit n (unat w)" by (rule unat_drop_bit_eq)
  also have "\<dots> = unat w div 2 ^ n" by (rule drop_bit_eq_div)
  finally show ?thesis .
qed

lemma unat_and_mask64: "unat (w AND mask n :: 64 word) = unat w mod 2 ^ n"
proof -
  have "unat (take_bit n w) = take_bit n (unat w)" by (rule unsigned_take_bit_eq)
  also have "\<dots> = unat w mod 2 ^ n" by (rule take_bit_eq_mod)
  finally show ?thesis by (simp only: take_bit_eq_mask)
qed

lemma unat_mask64: "n \<le> 64 \<Longrightarrow> unat (mask n :: 64 word) = 2 ^ n - 1"
proof -
  assume n: "n \<le> 64"
  have "uint (mask n :: 64 word) = mask (min LENGTH(64) n)" by (rule uint_mask_eq)
  also have "min LENGTH(64) n = n" using n by simp
  finally have "int (unat (mask n :: 64 word)) = 2 ^ n - 1"
    by (simp only: uint_nat mask_eq_exp_minus_1)
  also have "\<dots> = int (2 ^ n - 1)" by simp
  finally show ?thesis by (simp only: of_nat_eq_iff)
qed

lemma mask_beyond64: "64 \<le> n \<Longrightarrow> mask n = (- 1 :: 64 word)"
  by (intro bit_word_eqI) (simp add: bit_mask_iff)

lemma sint_mask_lt:
  assumes "n < 64"
  shows "sint (mask n :: 64 word) = 2 ^ n - 1"
proof -
  have u: "unat (mask n :: 64 word) = 2 ^ n - 1" using assms by (simp add: unat_mask64)
  have "(2::nat) ^ n \<le> 2 ^ 63" using assms by (intro power_increasing) simp_all
  then have "unat (mask n :: 64 word) < 2 ^ 63" using u by simp
  then have "sint (mask n :: 64 word) = int (2 ^ n - 1)" using u by (simp add: sint_small)
  then show ?thesis by simp
qed


lemma widths_no_wrap:
  assumes "unat (a :: 8 word) + unat (b :: 8 word) + unat (c :: 8 word) \<le> 64"
  shows "unat (a + b + c) = unat a + unat b + unat c" and "unat (b + c) = unat b + unat c"
    and "a + b + c \<le> 64"
  using assms by (simp_all add: unat_word_ariths word_le_nat_alt)

lemma pow_lt_63: "(2::int) ^ n < 2 ^ 63 \<Longrightarrow> n < 63"
  by (simp only: power_strict_increasing_iff [of 2 n 63])

lemma unat_sub_sint:
  assumes "0 \<le> sint a - sint b"
  shows "unat (a - b :: 64 word) = nat (sint a - sint b)"
proof -
  let ?k = "sint a - sint b"
  have "sint a < 2 ^ 63" using sint_lt [of a] by simp
  moreover have "- (2 ^ 63) \<le> sint b" using sint_ge [of b] by simp
  ultimately have lt: "?k < 2 ^ 64" by simp
  have "a - b = word_of_int ?k" by simp
  then have "uint (a - b) = ?k mod 2 ^ 64" by (simp only: uint_word_of_int) simp
  also have "\<dots> = ?k" using assms lt by simp
  finally have "int (unat (a - b)) = ?k" by (simp only: uint_nat)
  then show ?thesis by linarith
qed

lemma unat_push_bit_fits:
  "unat w * 2 ^ n < 2 ^ 64 \<Longrightarrow> unat (push_bit n w :: 64 word) = unat w * 2 ^ n"
  by (simp only: unat_push_bit64 mod_less)

lemma unat_add_fits:
  "unat a + unat b < 2 ^ 64 \<Longrightarrow> unat (a + b :: 64 word) = unat a + unat b"
  using unat_add_lem [of a b] by simp

lemma unat_mult_fits:
  "unat a * unat b < 2 ^ 64 \<Longrightarrow> unat (a * b :: 64 word) = unat a * unat b"
  using unat_mult_lem [of a b] by simp

lemma dvd_step_le:
  fixes S a b :: nat
  assumes "S dvd a" "S dvd b" "a < b"
  shows "a + S \<le> b"
  using assms by (metis dvd_add_right_iff dvd_imp_le less_imp_add_positive nat_add_left_cancel_le)

lemma sdiv_nonneg: "0 \<le> a \<Longrightarrow> 0 < b \<Longrightarrow> (a::int) sdiv b = a div b"
  by (cases "a = 0") (simp_all add: signed_divide_int_def sgn_if)

lemma smod_nonneg: "0 \<le> a \<Longrightarrow> 0 < b \<Longrightarrow> (a::int) smod b = a mod b"
  by (cases "a = 0") (simp_all add: signed_modulo_int_def signed_divide_int_def sgn_if)

lemma sint_nonneg_unat:
  assumes "0 \<le> sint (w :: 64 word)"
  shows "unat w < 2 ^ 63" and "sint w = int (unat w)"
proof -
  have nb: "\<not> bit w 63" using assms bit_last_iff [of w] by simp
  have "take_bit 63 w = w"
  proof (rule bit_word_eqI)
    fix n assume "n < LENGTH(64)"
    then show "bit (take_bit 63 w) n = bit w n"
      using nb by (cases "n = 63") (auto simp: bit_take_bit_iff)
  qed
  then have "unat w = take_bit 63 (unat w)" by (metis unsigned_take_bit_eq)
  also have "\<dots> < 2 ^ 63" by (rule take_bit_nat_less_exp)
  finally show lt: "unat w < 2 ^ 63" .
  then show "sint w = int (unat w)" by (rule sint_small)
qed

lemma valid_layout:
  assumes ok: "NewUidGenerator c prevID = Inr gen"
    and widths: "unat (EpochLen c) + unat (SrvLen c) + unat (CntLen c) \<le> 64"
    and nonneg: "0 \<le>s SrvID c"
  shows "update c = Inr (cfg gen)"
    and "unat (epochShift (cfg gen)) = unat (SrvLen c) + unat (CntLen c)"
    and "unat (SrvID c) < 2 ^ unat (SrvLen c)"
    and "srvID gen = push_bit (unat (CntLen c)) (SrvID c)"
    and "unat (srvID gen) = unat (SrvID c) * 2 ^ unat (CntLen c)"
    and "unat (srvID gen) + 2 ^ unat (CntLen c) \<le> 2 ^ (unat (SrvLen c) + unat (CntLen c))"
    and "epoch gen = prevID AND epochMask (cfg gen)"
    and "cnt gen = prevID AND cntMask (cfg gen)"
proof -
  let ?SL = "unat (SrvLen c)" and ?CL = "unat (CntLen c)"
  obtain c' where c': "update c = Inr c'"
    using ok by (cases "update c") (simp_all add: NewUidGenerator_def)
  have notbig: "\<not> maxSrv c' <s SrvID c'"
    using ok c' by (auto simp: NewUidGenerator_def split: if_splits)
  then have gen_eq: "gen = \<lparr>cfg = c', epoch = prevID AND epochMask c',
      srvID = push_bit (unat (CntLen c')) (SrvID c'), cnt = prevID AND cntMask c'\<rparr>"
    using ok c' by (simp add: NewUidGenerator_def)
  show "update c = Inr (cfg gen)" by (simp add: gen_eq c')
  show "unat (epochShift (cfg gen)) = ?SL + ?CL"
    by (simp add: gen_eq update_fields(7) [OF c'] widths_no_wrap(2) [OF widths])
  show "epoch gen = prevID AND epochMask (cfg gen)" by (simp add: gen_eq)
  show "cnt gen = prevID AND cntMask (cfg gen)" by (simp add: gen_eq)
  show sid: "srvID gen = push_bit ?CL (SrvID c)"
    by (simp add: gen_eq update_fields(3,4) [OF c'])
  have s0: "0 \<le> sint (SrvID c)" using nonneg by (simp add: word_sle_eq)
  have le: "sint (SrvID c) \<le> sint (mask ?SL :: 64 word)"
    using notbig by (simp add: word_sless_alt update_fields(4,10) [OF c'])
  have SL: "?SL < 64"
  proof (rule ccontr)
    assume "\<not> ?SL < 64"
    then have "mask ?SL = (- 1 :: 64 word)" by (simp add: mask_beyond64)
    with le s0 show False by simp
  qed
  have "int (unat (SrvID c)) \<le> 2 ^ ?SL - 1"
    using le by (simp only: sint_mask_lt [OF SL] sint_nonneg_unat(2) [OF s0])
  then have "int (unat (SrvID c)) < int (2 ^ ?SL)" by simp
  then show lt: "unat (SrvID c) < 2 ^ ?SL" by (simp only: of_nat_less_iff)
  then have "Suc (unat (SrvID c)) \<le> 2 ^ ?SL" by simp
  then have "Suc (unat (SrvID c)) * 2 ^ ?CL \<le> 2 ^ ?SL * 2 ^ ?CL" by (rule mult_le_mono1)
  then have bound: "unat (SrvID c) * 2 ^ ?CL + 2 ^ ?CL \<le> 2 ^ (?SL + ?CL)"
    by (simp add: power_add)
  have "(2::nat) ^ (?SL + ?CL) \<le> 2 ^ 64"
    using widths by (intro power_increasing) simp_all
  moreover have "(0::nat) < 2 ^ ?CL" by simp
  with bound have "unat (SrvID c) * 2 ^ ?CL < 2 ^ (?SL + ?CL)" by linarith
  ultimately have "unat (SrvID c) * 2 ^ ?CL < 2 ^ 64" by (rule less_le_trans [rotated])
  then show u: "unat (srvID gen) = unat (SrvID c) * 2 ^ ?CL"
    by (simp only: sid unat_push_bit_fits)
  show "unat (srvID gen) + 2 ^ ?CL \<le> 2 ^ (?SL + ?CL)" using bound by (simp only: u)
qed

text \<open>The generator built from \<open>SnowflakeConfig\<close> with no previous ID.\<close>

lemma snowflake_generator:
  "NewUidGenerator SnowflakeConfig 0 = Inr (projr (NewUidGenerator SnowflakeConfig 0))"
  "cfg (projr (NewUidGenerator SnowflakeConfig 0)) =
     SnowflakeConfig\<lparr>strLen := 13, epochShift := 22, epochMask := 9223372036850581504,
       epochIota := 4194304, maxSrv := 1023, srvMask := 4190208, maxCnt := 4095,
       cntMask := 4095, interval := 1048576, timeMask := 1048575\<rparr>"
  "epoch (projr (NewUidGenerator SnowflakeConfig 0)) = 0"
  "srvID (projr (NewUidGenerator SnowflakeConfig 0)) = 0"
  "cnt (projr (NewUidGenerator SnowflakeConfig 0)) = 0"
  by (simp_all add: NewUidGenerator_def update_def SnowflakeConfig_def Let_def word_sless_alt letterLen_def)

section \<open>Frame properties of \<open>NextID\<close>\<close>

lemma NextID_frame:
  "cfg (snd (NextID t g)) = cfg g" "srvID (snd (NextID t g)) = srvID g"
  by (simp_all add: NextID_def Let_def)

lemma NextID_value:
  "fst (NextID t g) = epoch (snd (NextID t g)) + srvID g + cnt (snd (NextID t g))"
  by (simp add: NextID_def Let_def)

lemma NextIDs_frame:
  "cfg (snd (NextIDs g ts)) = cfg g" "srvID (snd (NextIDs g ts)) = srvID g"
  by (induction ts arbitrary: g) (simp_all add: split_def Let_def NextID_frame)

section \<open>Facts about the decoding loops\<close>

lemma FromBase32_pad_zero: "FromBase32_pad n i 0 = 0"
proof -
  have "uid = 0 \<Longrightarrow> FromBase32_pad n i uid = 0" for uid
  proof (induction n i uid rule: FromBase32_pad.induct)
    case (1 n i uid)
    then show ?case by (subst FromBase32_pad.simps) simp
  qed
  then show ?thesis by simp
qed

lemma FromBase32_decode_qq: "FromBase32_decode ''??'' 0 0 = Some (0, 2)"
  by code_simp

lemma unat_and_push_bit_dvd: "2 ^ n dvd unat (w AND push_bit n m :: 64 word)"
proof -
  have "(w AND push_bit n m) AND mask n = 0"
    by (rule bit_word_eqI) (auto simp: bit_simps)
  then show ?thesis by (simp only: and_mask_dvd_nat)
qed

lemma unat_pow2: "n < 64 \<Longrightarrow> unat (push_bit n 1 :: 64 word) = 2 ^ n"
proof -
  assume "n < 64"
  then have "(2::nat) ^ n < 2 ^ 64" by (rule power_strict_increasing) simp
  then have "unat (1 :: 64 word) * 2 ^ n < 2 ^ 64" by simp
  then have "unat (push_bit n 1 :: 64 word) = unat (1 :: 64 word) * 2 ^ n"
    by (rule unat_push_bit_fits)
  then show ?thesis by simp
qed

lemma pow2_le_64_cases: "(2::nat) ^ n < 2 ^ 64 \<Longrightarrow> n < 64"
  by (simp only: power_strict_increasing_iff [of 2 n 64])

lemma built_layout:
  assumes ok: "NewUidGenerator c prevID = Inr gen"
  shows "update c = Inr (cfg gen)"
    and "srvID gen = push_bit (unat (CntLen c)) (SrvID c)"
    and "epoch gen = prevID AND epochMask (cfg gen)"
    and "cnt gen = prevID AND cntMask (cfg gen)"
proof -
  obtain c' where c': "update c = Inr c'"
    using ok by (cases "update c") (simp_all add: NewUidGenerator_def)
  have "\<not> maxSrv c' <s SrvID c'"
    using ok c' by (auto simp: NewUidGenerator_def split: if_splits)
  then have gen_eq: "gen = \<lparr>cfg = c', epoch = prevID AND epochMask c',
      srvID = push_bit (unat (CntLen c')) (SrvID c'), cnt = prevID AND cntMask c'\<rparr>"
    using ok c' by (simp add: NewUidGenerator_def)
  show "update c = Inr (cfg gen)" by (simp add: gen_eq c')
  show "epoch gen = prevID AND epochMask (cfg gen)" by (simp add: gen_eq)
  show "cnt gen = prevID AND cntMask (cfg gen)" by (simp add: gen_eq)
  show "srvID gen = push_bit (unat (CntLen c)) (SrvID c)"
    by (simp add: gen_eq update_fields(3,4) [OF c'])
qed

lemma unat_push_bit_dvd: "n \<le> 64 \<Longrightarrow> 2 ^ n dvd unat (push_bit n w :: 64 word)"
proof -
  assume "n \<le> 64"
  then have "(2::nat) ^ n dvd 2 ^ 64" by (rule le_imp_power_dvd)
  moreover have "(2::nat) ^ n dvd unat w * 2 ^ n" by simp
  ultimately have "2 ^ n dvd (unat w * 2 ^ n) mod 2 ^ 64" by (simp only: dvd_mod)
  then show ?thesis by (simp only: unat_push_bit64)
qed

lemma gen_inv_init:
  assumes ok: "NewUidGenerator c prevID = Inr gen"
    and widths: "unat (EpochLen c) + unat (SrvLen c) + unat (CntLen c) \<le> 64"
  shows "gen_inv gen"
proof -
  note lay = built_layout [OF ok]
  note f = update_fields [OF lay(1)]
  have sh: "unat (epochShift (cfg gen)) = unat (SrvLen c) + unat (CntLen c)"
    by (simp only: f(7) widths_no_wrap(2) [OF widths])
  have "unat (CntLen c) \<le> 64" using widths by simp
  then have "2 ^ unat (CntLen c) dvd unat (srvID gen)"
    by (simp only: lay(2)) (rule unat_push_bit_dvd)
  moreover have "2 ^ unat (epochShift (cfg gen)) dvd unat (epoch gen)"
    by (simp only: lay(3) f(7,8)) (rule unat_and_push_bit_dvd)
  moreover have "cnt gen \<le> maxCnt (cfg gen)"
    by (simp only: lay(4) f(12,13)) (rule word_and_le1)
  ultimately show ?thesis
    using widths by (simp add: gen_inv_def f widths_no_wrap(2) [OF widths])
qed

lemma srv_fits_init:
  assumes ok: "NewUidGenerator c prevID = Inr gen"
    and widths: "unat (EpochLen c) + unat (SrvLen c) + unat (CntLen c) \<le> 64"
    and nonneg: "0 \<le>s SrvID c"
  shows "srv_fits gen"
proof -
  note lay = valid_layout [OF ok widths nonneg]
  note f = update_fields [OF lay(1)]
  show ?thesis using lay(6) by (simp only: srv_fits_def f(3) lay(2))
qed

lemma NextID_exhausted:
  assumes "candidateEpoch g t \<le> epoch g" and "maxCnt (cfg g) < cnt g + 1"
  shows "epoch (snd (NextID t g)) = epoch g + epochIota (cfg g)"
    and "cnt (snd (NextID t g)) = 0"
    and "fst (NextID t g) = epoch g + epochIota (cfg g) + srvID g"
  using assms by (simp_all add: NextID_def Let_def)

lemma NextID_counted:
  assumes "candidateEpoch g t \<le> epoch g" and "\<not> maxCnt (cfg g) < cnt g + 1"
  shows "epoch (snd (NextID t g)) = epoch g"
    and "cnt (snd (NextID t g)) = cnt g + 1"
    and "fst (NextID t g) = epoch g + srvID g + (cnt g + 1)"
  using assms by (simp_all add: NextID_def Let_def)

lemma NextID_advanced:
  assumes "\<not> candidateEpoch g t \<le> epoch g"
  shows "epoch (snd (NextID t g)) = candidateEpoch g t"
    and "cnt (snd (NextID t g)) = 0"
    and "fst (NextID t g) = candidateEpoch g t + srvID g"
  using assms by (simp_all add: NextID_def Let_def)

lemma gen_invD:
  assumes "gen_inv g"
  shows "unat (epochShift (cfg g)) \<le> 64"
    and "unat (epochShift (cfg g)) = unat (SrvLen (cfg g)) + unat (CntLen (cfg g))"
    and "epochIota (cfg g) = push_bit (unat (epochShift (cfg g))) 1"
    and "epochMask (cfg g) = push_bit (unat (epochShift (cfg g))) (mask (unat (EpochLen (cfg g))))"
    and "srvMask (cfg g) = push_bit (unat (CntLen (cfg g))) (mask (unat (SrvLen (cfg g))))"
    and "maxCnt (cfg g) = mask (unat (CntLen (cfg g)))"
    and "cntMask (cfg g) = mask (unat (CntLen (cfg g)))"
    and "2 ^ unat (CntLen (cfg g)) dvd unat (srvID g)"
    and "2 ^ unat (epochShift (cfg g)) dvd unat (epoch g)"
    and "cnt g \<le> maxCnt (cfg g)"
    and "unat (EpochLen (cfg g)) + unat (epochShift (cfg g)) \<le> 64"
  using assms unfolding gen_inv_def by blast+

lemma candidateEpoch_dvd:
  assumes "gen_inv g"
  shows "2 ^ unat (epochShift (cfg g)) dvd unat (candidateEpoch g t)"
proof -
  have "epochMask (cfg g) = push_bit (unat (epochShift (cfg g))) (mask (unat (EpochLen (cfg g))))"
    by (rule gen_invD(4) [OF assms])
  then show ?thesis
    by (simp only: candidateEpoch_def) (rule unat_and_push_bit_dvd)
qed

lemma unat_add_dvd:
  assumes "n \<le> 64" and "2 ^ n dvd unat a" and "2 ^ n dvd unat b"
  shows "2 ^ n dvd unat (a + b :: 64 word)"
proof -
  have "(2::nat) ^ n dvd 2 ^ 64" using assms(1) by (rule le_imp_power_dvd)
  moreover have "2 ^ n dvd unat a + unat b" using assms(2,3) by (rule dvd_add)
  ultimately have "2 ^ n dvd (unat a + unat b) mod 2 ^ 64" by (simp only: dvd_mod)
  then show ?thesis by (simp add: unat_word_ariths)
qed

lemma gen_inv_NextID:
  assumes inv: "gen_inv g"
  shows "gen_inv (snd (NextID t g))"
proof -
  let ?g' = "snd (NextID t g)"
  let ?sh = "unat (epochShift (cfg g))"
  note sh = gen_invD(1) [OF inv] and iota = gen_invD(3) [OF inv]
    and e = gen_invD(9) [OF inv] and k = gen_invD(10) [OF inv]
  have e': "2 ^ ?sh dvd unat (epoch ?g')"
  proof (cases "candidateEpoch g t \<le> epoch g")
    case True
    show ?thesis
    proof (cases "maxCnt (cfg g) < cnt g + 1")
      case True
      have "2 ^ ?sh dvd unat (epochIota (cfg g))"
        by (simp only: iota) (rule unat_push_bit_dvd [OF sh])
      with e have "2 ^ ?sh dvd unat (epoch g + epochIota (cfg g))"
        by (intro unat_add_dvd sh)
      then show ?thesis
        by (simp only: NextID_exhausted(1) [OF \<open>candidateEpoch g t \<le> epoch g\<close> True])
    next
      case False
      show ?thesis
        using e by (simp only: NextID_counted(1) [OF \<open>candidateEpoch g t \<le> epoch g\<close> False])
    qed
  next
    case False
    show ?thesis
      by (simp only: NextID_advanced(1) [OF False]) (rule candidateEpoch_dvd [OF inv])
  qed
  have k': "cnt ?g' \<le> maxCnt (cfg g)"
  proof (cases "candidateEpoch g t \<le> epoch g")
    case True
    show ?thesis
    proof (cases "maxCnt (cfg g) < cnt g + 1")
      case True
      show ?thesis by (simp add: NextID_exhausted(2) [OF \<open>candidateEpoch g t \<le> epoch g\<close> True])
    next
      case False
      then show ?thesis
        by (simp add: NextID_counted(2) [OF \<open>candidateEpoch g t \<le> epoch g\<close> False])
    qed
  next
    case False
    show ?thesis by (simp add: NextID_advanced(2) [OF False])
  qed
  show ?thesis
    unfolding gen_inv_def NextID_frame using gen_invD [OF inv] e' k' by blast
qed

lemma gen_inv_NextIDs: "gen_inv g \<Longrightarrow> gen_inv (snd (NextIDs g ts))"
  by (induction ts arbitrary: g) (simp_all add: split_def Let_def gen_inv_NextID)

lemma srv_fits_NextIDs: "srv_fits g \<Longrightarrow> srv_fits (snd (NextIDs g ts))"
  by (simp add: srv_fits_def NextIDs_frame)



lemma unat_field:
  assumes "n + m \<le> 64"
  shows "unat (x AND push_bit n (mask m) :: 64 word) = unat x div 2 ^ n mod 2 ^ m * 2 ^ n"
proof -
  have eq: "x AND push_bit n (mask m) = push_bit n (take_bit m (drop_bit n x))"
    by (rule bit_word_eqI) (auto simp: bit_simps)
  have "unat (take_bit m (drop_bit n x)) = take_bit m (unat (drop_bit n x))"
    by (rule unsigned_take_bit_eq)
  also have "\<dots> = unat (drop_bit n x) mod 2 ^ m" by (rule take_bit_eq_mod)
  also have "\<dots> = unat x div 2 ^ n mod 2 ^ m" by (simp only: unat_drop_bit64)
  finally have u: "unat (take_bit m (drop_bit n x)) = unat x div 2 ^ n mod 2 ^ m" .
  have "unat x div 2 ^ n mod 2 ^ m < 2 ^ m" by simp
  then have "unat x div 2 ^ n mod 2 ^ m * 2 ^ n < 2 ^ m * 2 ^ n" by simp
  also have "\<dots> = 2 ^ (n + m)" by (simp add: power_add)
  also have "\<dots> \<le> 2 ^ 64" using assms by (intro power_increasing) simp_all
  finally have "unat (take_bit m (drop_bit n x)) * 2 ^ n < 2 ^ 64" by (simp only: u)
  then have "unat (push_bit n (take_bit m (drop_bit n x))) = unat (take_bit m (drop_bit n x)) * 2 ^ n"
    by (rule unat_push_bit_fits)
  then show ?thesis by (simp only: eq u)
qed

lemma unat_sum3: "unat (e + s + k :: 64 word) = (unat e + unat s + unat k) mod 2 ^ 64"
proof -
  have "unat (e + s + k) = (unat (e + s) + unat k) mod 2 ^ 64" by (simp add: unat_word_ariths)
  also have "unat (e + s) = (unat e + unat s) mod 2 ^ 64" by (simp add: unat_word_ariths)
  finally show ?thesis by (simp only: mod_add_left_eq)
qed

lemma le_mask_unat_lt:
  assumes "n \<le> 64" and "k \<le> (mask n :: 64 word)"
  shows "unat k < 2 ^ n"
proof -
  have "unat k \<le> unat (mask n :: 64 word)" using assms(2) by (simp only: word_le_nat_alt)
  also have "\<dots> = 2 ^ n - 1" by (rule unat_mask64 [OF assms(1)])
  finally show ?thesis by (simp add: Nat.le_diff_conv2 less_eq_Suc_le)
qed



lemma id_value:
  assumes inv: "gen_inv g" and fits: "srv_fits g"
  shows "unat (epoch g) + 2 ^ unat (epochShift (cfg g)) \<le> 2 ^ 64"
    and "unat (cnt g) < 2 ^ unat (CntLen (cfg g))"
    and "unat (srvID g) + unat (cnt g) < 2 ^ unat (epochShift (cfg g))"
    and "unat (epoch g + srvID g + cnt g) = unat (epoch g) + unat (srvID g) + unat (cnt g)"
proof -
  let ?sh = "unat (epochShift (cfg g))" and ?cl = "unat (CntLen (cfg g))"
  note d = gen_invD [OF inv]
  have "(2::nat) ^ ?sh dvd 2 ^ 64" using d(1) by (rule le_imp_power_dvd)
  moreover have "unat (epoch g) < 2 ^ 64" using unsigned_less [of "epoch g"] by simp
  ultimately show E: "unat (epoch g) + 2 ^ ?sh \<le> 2 ^ 64"
    using d(9) by (intro dvd_step_le)
  have "?cl \<le> 64" using d(1) by (simp only: d(2))
  then show k: "unat (cnt g) < 2 ^ ?cl"
    using d(10) by (intro le_mask_unat_lt) (simp_all only: d(6))
  have "unat (srvID g) + 2 ^ ?cl \<le> 2 ^ ?sh" using fits by (simp only: srv_fits_def)
  with k show sk: "unat (srvID g) + unat (cnt g) < 2 ^ ?sh" by linarith
  with E have "unat (epoch g) + unat (srvID g) + unat (cnt g) < 2 ^ 64" by linarith
  then show "unat (epoch g + srvID g + cnt g) = unat (epoch g) + unat (srvID g) + unat (cnt g)"
    by (simp only: unat_sum3 mod_less)
qed

lemma NextID_increases:
  assumes inv: "gen_inv g" and fits: "srv_fits g" and nov: "\<not> overflows t g"
  shows "epoch g + srvID g + cnt g < fst (NextID t g)"
proof -
  let ?g' = "snd (NextID t g)"
  let ?sh = "unat (epochShift (cfg g))" and ?cl = "unat (CntLen (cfg g))"
  note d = gen_invD [OF inv]
  note v = id_value [OF inv fits]
  have inv': "gen_inv ?g'" by (rule gen_inv_NextID [OF inv])
  have fits': "srv_fits ?g'" using fits by (simp add: srv_fits_def NextID_frame)
  note v' = id_value [OF inv' fits', unfolded NextID_frame]
  have uid: "fst (NextID t g) = epoch ?g' + srvID g + cnt ?g'" by (rule NextID_value)
  have sh_le: "(2::nat) ^ ?cl \<le> 2 ^ ?sh"
    by (rule power_increasing) (simp_all add: d(2))
  have "unat (epoch g) + unat (srvID g) + unat (cnt g)
      < unat (epoch ?g') + unat (srvID g) + unat (cnt ?g')"
  proof (cases "candidateEpoch g t \<le> epoch g")
    case True
    show ?thesis
    proof (cases "maxCnt (cfg g) < cnt g + 1")
      case ex: True
      from nov True ex have room: "unat (epoch g) + 2 ^ ?sh < 2 ^ 64"
        by (simp add: overflows_def)
      then have "(2::nat) ^ ?sh < 2 ^ 64" by linarith
      then have "?sh < 64" by (rule pow2_le_64_cases)
      then have "unat (epochIota (cfg g)) = 2 ^ ?sh" by (simp only: d(3) unat_pow2)
      with room have "unat (epoch g + epochIota (cfg g)) = unat (epoch g) + 2 ^ ?sh"
        by (simp add: unat_add_fits)
      then have "unat (epoch ?g') = unat (epoch g) + 2 ^ ?sh"
        by (simp only: NextID_exhausted(1) [OF True ex])
      moreover have "unat (cnt ?g') = 0" by (simp add: NextID_exhausted(2) [OF True ex])
      ultimately show ?thesis using v(2) sh_le by linarith
    next
      case cn: False
      from nov True cn have "cnt g + 1 \<noteq> 0" by (simp add: overflows_def)
      then have "unat (cnt g + 1) = unat (cnt g) + 1"
        by (metis add.commute unatSuc Suc_eq_plus1)
      then have "unat (cnt ?g') = unat (cnt g) + 1"
        by (simp only: NextID_counted(2) [OF True cn])
      moreover have "unat (epoch ?g') = unat (epoch g)"
        by (simp only: NextID_counted(1) [OF True cn])
      ultimately show ?thesis by linarith
    qed
  next
    case False
    then have "unat (epoch g) < unat (candidateEpoch g t)" by (simp add: word_le_nat_alt)
    then have "unat (epoch g) + 2 ^ ?sh \<le> unat (candidateEpoch g t)"
      by (intro dvd_step_le d(9) candidateEpoch_dvd [OF inv])
    then have "unat (epoch g) + 2 ^ ?sh \<le> unat (epoch ?g')"
      by (simp only: NextID_advanced(1) [OF False])
    then show ?thesis using v(3) by linarith
  qed
  then have "unat (epoch g + srvID g + cnt g) < unat (epoch ?g' + srvID g + cnt ?g')"
    by (simp only: v(4) v'(4))
  then show ?thesis by (simp only: uid word_less_nat_alt)
qed

lemma NextIDs_increasing:
  assumes "gen_inv g" and "srv_fits g" and "overflow_free g ts"
  shows "sorted_wrt (<) (fst (NextIDs g ts))
    \<and> (\<forall>u \<in> set (fst (NextIDs g ts)). epoch g + srvID g + cnt g < u)"
  using assms
proof (induction ts arbitrary: g)
  case Nil
  then show ?case by simp
next
  case (Cons t ts)
  let ?g' = "snd (NextID t g)" and ?u = "fst (NextID t g)"
  have nov: "\<not> overflows t g" and free: "overflow_free ?g' ts"
    using Cons.prems(3) by simp_all
  have inv': "gen_inv ?g'" by (rule gen_inv_NextID [OF Cons.prems(1)])
  have fits': "srv_fits ?g'" using Cons.prems(2) by (simp add: srv_fits_def NextID_frame)
  have step: "epoch g + srvID g + cnt g < ?u"
    by (rule NextID_increases [OF Cons.prems(1,2) nov])
  have u: "?u = epoch ?g' + srvID ?g' + cnt ?g'"
    by (simp only: NextID_frame) (rule NextID_value)
  note IH = Cons.IH [OF inv' fits' free]
  have sorted: "sorted_wrt (<) (fst (NextIDs ?g' ts))" using IH by (rule conjunct1)
  have above: "\<forall>v \<in> set (fst (NextIDs ?g' ts)). ?u < v"
    using IH by (simp only: u) blast
  have ids: "fst (NextIDs g (t # ts)) = ?u # fst (NextIDs ?g' ts)"
    by (simp add: split_def Let_def)
  show ?case
    unfolding ids using sorted above step by (auto intro: less_trans)
qed

lemma div_add_small:
  fixes E s S :: nat
  assumes "S dvd E" and "s < S"
  shows "(E + s) div S = E div S"
proof -
  obtain q where q: "E = S * q" using assms(1) by (rule dvdE)
  have "0 < S" using assms(2) by simp
  then show ?thesis using assms(2) by (simp add: q)
qed

lemma exhausted_fields:
  assumes inv: "gen_inv g" and fits: "srv_fits g"
    and cand: "candidateEpoch g t \<le> epoch g"
    and ex: "maxCnt (cfg g) < cnt g + 1"
    and below: "epoch g < epochMask (cfg g)"
  shows "fst (NextID t g) AND epochMask (cfg g) = epoch g + epochIota (cfg g)"
    and "fst (NextID t g) AND cntMask (cfg g) = 0"
proof -
  let ?g' = "snd (NextID t g)"
  let ?sh = "unat (epochShift (cfg g))" and ?cl = "unat (CntLen (cfg g))"
    and ?el = "unat (EpochLen (cfg g))"
  let ?e' = "epoch g + epochIota (cfg g)"
  let ?M = "unat (epochMask (cfg g))"
  note d = gen_invD [OF inv]
  have inv': "gen_inv ?g'" by (rule gen_inv_NextID [OF inv])
  have fits': "srv_fits ?g'" using fits by (simp add: srv_fits_def NextID_frame)
  note v' = id_value [OF inv' fits', unfolded NextID_frame NextID_exhausted(1,2) [OF cand ex]]
  have uid: "fst (NextID t g) = ?e' + srvID g + 0"
    by (simp add: NextID_exhausted(3) [OF cand ex])
  have nm: "?sh + ?el \<le> 64" using d(11) by (simp only: add.commute)
  have Mdvd: "2 ^ ?sh dvd ?M" by (simp only: d(4)) (rule unat_push_bit_dvd [OF d(1)])
  have "unat (epoch g) < ?M" using below by (simp only: word_less_nat_alt)
  then have EM: "unat (epoch g) + 2 ^ ?sh \<le> ?M" by (intro dvd_step_le d(9) Mdvd)
  moreover have "?M < 2 ^ 64" using unsigned_less [of "epochMask (cfg g)"] by simp
  ultimately have room: "unat (epoch g) + 2 ^ ?sh < 2 ^ 64" by linarith
  then have "(2::nat) ^ ?sh < 2 ^ 64" by linarith
  then have "?sh < 64" by (rule pow2_le_64_cases)
  then have "unat (epochIota (cfg g)) = 2 ^ ?sh" by (simp only: d(3) unat_pow2)
  with room have ue': "unat ?e' = unat (epoch g) + 2 ^ ?sh" by (simp add: unat_add_fits)
  have e'dvd: "2 ^ ?sh dvd unat ?e'" using d(9) by (simp only: ue') simp
  have s_lt: "unat (srvID g) < 2 ^ ?sh" using v'(3) by simp
  have uu: "unat (?e' + srvID g + 0) = unat ?e' + unat (srvID g)" using v'(4) by simp
  have "epochMask (cfg g) AND push_bit ?sh (mask ?el) = epochMask (cfg g)"
    by (simp only: d(4) and.idem)
  then have Meq: "?M = ?M div 2 ^ ?sh mod 2 ^ ?el * 2 ^ ?sh"
    using unat_field [OF nm, of "epochMask (cfg g)"] by (simp only:)
  have "?M div 2 ^ ?sh mod 2 ^ ?el < 2 ^ ?el" by (rule mod_less_divisor) simp
  then have "?M div 2 ^ ?sh mod 2 ^ ?el * 2 ^ ?sh < 2 ^ ?el * 2 ^ ?sh"
    by (rule mult_less_mono1) simp
  then have Mlt: "?M < 2 ^ ?el * 2 ^ ?sh" using Meq by (simp only:)
  obtain q where q: "unat ?e' = 2 ^ ?sh * q" using e'dvd by (rule dvdE)
  have "unat ?e' < 2 ^ ?el * 2 ^ ?sh" using EM Mlt by (simp only: ue') 
  then have "q * 2 ^ ?sh < 2 ^ ?el * 2 ^ ?sh" by (simp only: q mult.commute [of "2 ^ ?sh" q])
  then have qlt: "q < 2 ^ ?el" by (rule mult_less_cancel2 [THEN iffD1, THEN conjunct2])
  have "unat ((?e' + srvID g + 0) AND epochMask (cfg g))
      = (unat ?e' + unat (srvID g)) div 2 ^ ?sh mod 2 ^ ?el * 2 ^ ?sh"
    by (simp only: d(4) unat_field [OF nm] uu)
  also have "(unat ?e' + unat (srvID g)) div 2 ^ ?sh = unat ?e' div 2 ^ ?sh"
    by (rule div_add_small [OF e'dvd s_lt])
  also have "unat ?e' div 2 ^ ?sh = q" by (simp only: q) simp
  also have "q mod 2 ^ ?el * 2 ^ ?sh = unat ?e'" using qlt by (simp only: q mod_less mult.commute)
  finally have "(?e' + srvID g + 0) AND epochMask (cfg g) = ?e'"
    by (rule word_unat_eq_iff [THEN iffD2])
  then show "fst (NextID t g) AND epochMask (cfg g) = ?e'" by (simp only: uid)
  have cl_sh: "(2::nat) ^ ?cl dvd 2 ^ ?sh"
    by (rule le_imp_power_dvd) (simp add: d(2))
  have "2 ^ ?cl dvd unat ?e'" using cl_sh e'dvd by (rule dvd_trans)
  then have "2 ^ ?cl dvd unat ?e' + unat (srvID g)" using d(8) by (rule dvd_add)
  then have "unat ((?e' + srvID g + 0) AND mask ?cl) = 0"
    by (simp only: unat_and_mask64 uu) simp
  then have "(?e' + srvID g + 0) AND mask ?cl = 0" by (simp only: unat_eq_0)
  then show "fst (NextID t g) AND cntMask (cfg g) = 0" by (simp only: uid d(7))
qed

lemma state_id_form:
  assumes inv: "gen_inv g" and fits: "srv_fits g"
  shows "unat (epoch g + srvID g + cnt g)
      = unat (drop_bit (unat (epochShift (cfg g))) (epoch g + srvID g + cnt g))
          * 2 ^ unat (epochShift (cfg g)) + unat (srvID g) + unat (cnt g)"
proof -
  let ?sh = "unat (epochShift (cfg g))"
  note d = gen_invD [OF inv] and v = id_value [OF inv fits]
  have "(unat (epoch g) + (unat (srvID g) + unat (cnt g))) div 2 ^ ?sh = unat (epoch g) div 2 ^ ?sh"
    by (rule div_add_small [OF d(9) v(3)])
  then have "(unat (epoch g) + unat (srvID g) + unat (cnt g)) div 2 ^ ?sh
      = unat (epoch g) div 2 ^ ?sh"
    by (simp only: add.assoc)
  moreover have "unat (drop_bit ?sh (epoch g + srvID g + cnt g))
      = unat (epoch g + srvID g + cnt g) div 2 ^ ?sh"
    by (rule unat_drop_bit64)
  ultimately have "unat (drop_bit ?sh (epoch g + srvID g + cnt g)) = unat (epoch g) div 2 ^ ?sh"
    by (simp only: v(4))
  moreover have "unat (epoch g) div 2 ^ ?sh * 2 ^ ?sh = unat (epoch g)"
    using d(9) by (rule dvd_div_mult_self)
  ultimately show ?thesis by (simp only: v(4))
qed

lemma issued_id_form:
  assumes "gen_inv g" and "srv_fits g"
  shows "\<forall>u \<in> set (fst (NextIDs g ts)). \<exists>c < 2 ^ unat (CntLen (cfg g)).
    unat u = unat (drop_bit (unat (epochShift (cfg g))) u) * 2 ^ unat (epochShift (cfg g))
      + unat (srvID g) + c"
  using assms
proof (induction ts arbitrary: g)
  case Nil
  then show ?case by simp
next
  case (Cons t ts)
  let ?g' = "snd (NextID t g)" and ?u = "fst (NextID t g)"
  have inv': "gen_inv ?g'" by (rule gen_inv_NextID [OF Cons.prems(1)])
  have fits': "srv_fits ?g'" using Cons.prems(2) by (simp add: srv_fits_def NextID_frame)
  have u: "?u = epoch ?g' + srvID ?g' + cnt ?g'"
    by (simp only: NextID_frame) (rule NextID_value)
  have "unat ?u = unat (drop_bit (unat (epochShift (cfg g))) ?u) * 2 ^ unat (epochShift (cfg g))
      + unat (srvID g) + unat (cnt ?g')"
    using state_id_form [OF inv' fits', unfolded NextID_frame]
    by (simp only: NextID_value [symmetric])
  moreover have "unat (cnt ?g') < 2 ^ unat (CntLen (cfg g))"
    using id_value(2) [OF inv' fits'] by (simp only: NextID_frame)
  ultimately have head: "\<exists>c < 2 ^ unat (CntLen (cfg g)).
      unat ?u = unat (drop_bit (unat (epochShift (cfg g))) ?u) * 2 ^ unat (epochShift (cfg g))
        + unat (srvID g) + c"
    by blast
  have tail: "\<forall>u \<in> set (fst (NextIDs ?g' ts)). \<exists>c < 2 ^ unat (CntLen (cfg g)).
      unat u = unat (drop_bit (unat (epochShift (cfg g))) u) * 2 ^ unat (epochShift (cfg g))
        + unat (srvID g) + c"
    using Cons.IH [OF inv' fits'] by (simp only: NextID_frame)
  have ids: "fst (NextIDs g (t # ts)) = ?u # fst (NextIDs ?g' ts)"
    by (simp add: split_def Let_def)
  show ?case unfolding ids using head tail by simp
qed

lemma count_per_tick:
  fixes ids :: "64 word list" and f :: "64 word \<Rightarrow> 64 word"
  assumes dist: "distinct ids"
    and form: "\<forall>u \<in> set ids. \<exists>c < C. unat u = unat (f u) * S + s + c"
  shows "count_list (map f ids) k \<le> C"
proof -
  let ?A = "{u \<in> set ids. f u = k}"
  have "count_list (map f ids) k = length (filter (\<lambda>u. f u = k) ids)"
    by (induction ids) simp_all
  also have "\<dots> = card ?A"
    using dist by (simp add: distinct_length_filter Collect_conj_eq Int_commute)
  also have "\<dots> \<le> card ((\<lambda>c. word_of_nat (unat k * S + s + c) :: 64 word) ` {..<C})"
  proof (rule card_mono)
    show "finite ((\<lambda>c. word_of_nat (unat k * S + s + c) :: 64 word) ` {..<C})" by simp
    show "?A \<subseteq> (\<lambda>c. word_of_nat (unat k * S + s + c)) ` {..<C}"
    proof
      fix u assume "u \<in> ?A"
      then have "u \<in> set ids" and fk: "f u = k" by simp_all
      with form obtain c where c: "c < C" "unat u = unat (f u) * S + s + c" by blast
      have "u = word_of_nat (unat u)" by simp
      then have "u = word_of_nat (unat k * S + s + c)" by (simp only: c(2) fk)
      with c(1) show "u \<in> (\<lambda>c. word_of_nat (unat k * S + s + c)) ` {..<C}" by blast
    qed
  qed
  also have "\<dots> \<le> card {..<C}" by (rule card_image_le) simp
  finally show ?thesis by simp
qed

lemma int8_of_nat:
  assumes "a \<le> 127"
  shows "unat (word_of_nat a :: int8) = a" and "sint (word_of_nat a :: int8) = int a"
proof -
  show u: "unat (word_of_nat a :: int8) = a" using assms by (simp add: unat_of_nat)
  have "uint (word_of_nat a :: int8) = int a"
    using u by (simp only: uint_nat)
  moreover have "int a < 2 ^ 7" using assms by simp
  moreover have "- (2 ^ 7) \<le> int a" by simp
  ultimately have "signed_take_bit 7 (uint (word_of_nat a :: int8)) = int a"
    by (simp only: signed_take_bit_int_eq_self)
  moreover have "sint (word_of_nat a :: int8)
      = signed_take_bit (LENGTH(8) - Suc 0) (uint (word_of_nat a :: int8))"
    by (rule sint_uint)
  ultimately show "sint (word_of_nat a :: int8) = int a" by simp
qed

lemma int8_less: "a \<le> 127 \<Longrightarrow> b \<le> 127 \<Longrightarrow> (word_of_nat a :: int8) <s word_of_nat b \<longleftrightarrow> a < b"
  by (simp add: word_sless_alt int8_of_nat)

lemma int8_nonneg: "a \<le> 127 \<Longrightarrow> 0 \<le>s (word_of_nat a :: int8)"
  by (simp add: word_sle_eq int8_of_nat)

lemma int8_minus_one_neg: "\<not> 0 \<le>s (word_of_nat 0 - 1 :: int8)"
  by (simp add: word_sle_eq)

lemma letters_table:
  "list_all (\<lambda>v. decodeLetters ! of_char (letters ! v) = word_of_nat v) [0..<32]"
  by code_simp

lemma letterMask_eq: "letterMask = mask 5"
  by (simp add: letterMask_def letterLen_def mask_eq_exp_minus_1)

lemma letter_index_lt: "unat (x AND letterMask) < 32"
proof -
  have "unat (x AND mask 5) = unat x mod 2 ^ 5" by (rule unat_and_mask64)
  also have "\<dots> < 2 ^ 5" by (rule mod_less_divisor) simp
  finally show ?thesis by (simp add: letterMask_eq)
qed

lemma decode_letter:
  assumes "v < 32"
  shows "decodeLetters ! of_char (letters ! v) = word_of_nat v"
    and "decodeLetters ! of_char (letters ! v) \<noteq> 0xFF"
proof -
  have "\<forall>v \<in> set [0..<32]. decodeLetters ! of_char (letters ! v) = word_of_nat v"
    using letters_table by (simp only: list_all_iff)
  then show eq: "decodeLetters ! of_char (letters ! v) = word_of_nat v" using assms by simp
  have "unat (word_of_nat v :: uint8) = v" using assms by (simp add: unat_of_nat)
  then have "(word_of_nat v :: uint8) \<noteq> 0xFF" using assms by auto
  then show "decodeLetters ! of_char (letters ! v) \<noteq> 0xFF" using eq by simp
qed

lemma ucast_decode_letter:
  "ucast (decodeLetters ! of_char (letters ! unat (x AND letterMask))) = x AND letterMask"
proof -
  have "ucast (ucast (x AND mask 5 :: UniqueID) :: uint8) = (x AND mask 5 :: UniqueID)"
    by (rule bit_word_eqI) (auto simp: bit_simps)
  then have "ucast (word_of_nat (unat (x AND letterMask)) :: uint8) = x AND letterMask"
    by (simp add: letterMask_eq)
  then show ?thesis by (simp only: decode_letter(1) [OF letter_index_lt])
qed

lemma length_lettersOf: "length (lettersOf k x) = k"
  by (induction k arbitrary: x) simp_all

lemma take_bit_group:
  "push_bit m (take_bit n (drop_bit m x)) + take_bit m x = take_bit (n + m) (x :: 64 word)"
proof -
  have "push_bit m (take_bit n (drop_bit m x)) + take_bit m x
      = push_bit m (take_bit n (drop_bit m x)) OR take_bit m x"
    by (rule disjunctive_add) (auto simp: bit_simps)
  also have "\<dots> = take_bit (n + m) x"
    by (rule bit_word_eqI) (auto simp: bit_simps)
  finally show ?thesis .
qed

lemma fill_lettersOf:
  assumes "k \<le> length b" and "k \<le> 127"
  shows "ToBase32_fill b (word_of_nat k - 1) uid = lettersOf k uid @ drop k b"
  using assms
proof (induction k arbitrary: b uid)
  case 0
  show ?case by (subst ToBase32_fill.simps) (simp add: word_sle_eq)
next
  case (Suc k)
  let ?L = "letters ! unat (uid AND letterMask)"
  have k: "k \<le> 127" and kb: "k < length b" using Suc.prems by simp_all
  have i: "word_of_nat (Suc k) - 1 = (word_of_nat k :: int8)" by simp
  have "ToBase32_fill b (word_of_nat k) uid
      = ToBase32_fill (b[k := ?L]) (word_of_nat k - 1) (drop_bit letterLen uid)"
    by (subst ToBase32_fill.simps) (simp add: int8_nonneg [OF k] int8_of_nat(1) [OF k])
  also have "\<dots> = lettersOf k (drop_bit letterLen uid) @ drop k (b[k := ?L])"
    using kb k by (intro Suc.IH) simp_all
  also have "drop k (b[k := ?L]) = ?L # drop (Suc k) b"
    using kb by (simp add: drop_update_cancel flip: Cons_nth_drop_Suc [of k "b[k := ?L]"])
  finally show ?case by (simp only: i lettersOf.simps append_assoc append_Cons append_Nil)
qed

lemma pad_push:
  assumes "a \<le> b" and "b \<le> 127"
  shows "FromBase32_pad (word_of_nat b) (word_of_nat a) uid = push_bit (letterLen * (b - a)) uid"
  using assms
proof (induction "b - a" arbitrary: a uid)
  case 0
  then have "a = b" by simp
  then show ?case using "0.prems" by (subst FromBase32_pad.simps) (simp add: word_sless_alt)
next
  case (Suc d)
  have a: "a < b" "a \<le> 127" "Suc a \<le> 127" using Suc.hyps(2) Suc.prems by simp_all
  have d: "d = b - Suc a" using Suc.hyps(2) by simp
  have "FromBase32_pad (word_of_nat b) (word_of_nat a) uid
      = FromBase32_pad (word_of_nat b) (word_of_nat a + 1) (push_bit letterLen uid)"
    by (subst FromBase32_pad.simps) (simp add: int8_less [OF a(2) Suc.prems(2)] a(1))
  also have "word_of_nat a + 1 = (word_of_nat (Suc a) :: int8)" by simp
  also have "FromBase32_pad (word_of_nat b) (word_of_nat (Suc a)) (push_bit letterLen uid)
      = push_bit (letterLen * (b - Suc a)) (push_bit letterLen uid)"
    using a(1) Suc.prems(2) by (intro Suc.hyps(1) d) simp_all
  also have "\<dots> = push_bit (letterLen * (b - Suc a) + letterLen) uid"
    by (rule push_bit_push_bit)
  also have "letterLen * (b - Suc a) + letterLen = letterLen * (b - a)"
    using a(1) by (metis Suc_diff_Suc mult_Suc_right add.commute)
  finally show ?case .
qed

lemma decode_lettersOf:
  assumes "str = pre @ lettersOf k x @ suf" and "length str \<le> 127"
  shows "FromBase32_decode str (word_of_nat (length pre)) acc
    = FromBase32_decode str (word_of_nat (length pre + k))
        (push_bit (letterLen * k) acc + take_bit (letterLen * k) x)"
  using assms
proof (induction k arbitrary: x suf)
  case 0
  show ?case by simp
next
  case (Suc k)
  let ?L = "letters ! unat (x AND letterMask)" and ?x' = "drop_bit letterLen x"
  let ?j = "length pre + k"
  let ?A = "push_bit (letterLen * k) acc + take_bit (letterLen * k) ?x'"
  have str: "str = pre @ lettersOf k ?x' @ (?L # suf)" using Suc.prems(1) by simp
  have len: "length str = ?j + Suc (length suf)" by (simp add: str length_lettersOf)
  have j: "?j \<le> 127" and jlt: "?j < length str" using Suc.prems(2) len by simp_all
  have nth: "str ! ?j = ?L"
    by (simp add: str nth_append length_lettersOf)
  have IH: "FromBase32_decode str (word_of_nat (length pre)) acc
      = FromBase32_decode str (word_of_nat ?j) ?A"
    by (rule Suc.IH [OF str Suc.prems(2)])
  have lt: "(word_of_nat ?j :: int8) <s word_of_nat (length str)"
    using jlt by (simp only: int8_less [OF j Suc.prems(2)])
  have step: "FromBase32_decode str (word_of_nat ?j) ?A
      = FromBase32_decode str (word_of_nat ?j + 1) (push_bit letterLen ?A + (x AND letterMask))"
    by (subst FromBase32_decode.simps)
      (simp only: lt if_True Let_def int8_of_nat(1) [OF j] nth
        decode_letter(2) [OF letter_index_lt] if_False ucast_decode_letter)
  have idx: "word_of_nat ?j + 1 = (word_of_nat (length pre + Suc k) :: int8)" by simp
  have "x AND letterMask = take_bit letterLen x"
    by (simp add: letterMask_eq letterLen_def take_bit_eq_mask)
  then have acc: "push_bit letterLen ?A + (x AND letterMask)
      = push_bit (letterLen * Suc k) acc + take_bit (letterLen * Suc k) x"
    by (simp only: push_bit_add push_bit_push_bit add.assoc take_bit_group mult_Suc_right
        add.commute [of letterLen "letterLen * k"])
  show ?case by (simp only: IH step idx acc)
qed

section \<open>Construction errors\<close>

text \<open>
  C9. A configuration whose three widths sum, as integers, to at most 64 and whose
  server identity \<open>SrvID\<close> is at least \<open>2 ^ SrvLen\<close> is refused by \<open>NewUidGenerator\<close>
  with \<open>ErrTooBigServerID\<close>; no generator is returned.
\<close>

theorem NewUidGenerator_server_id_too_big:
  assumes "unat (EpochLen c) + unat (SrvLen c) + unat (CntLen c) \<le> 64"
    and "2 ^ unat (SrvLen c) \<le> sint (SrvID c)"
  shows "NewUidGenerator c prevID = Inl ErrTooBigServerID"
proof -
  obtain c' where c': "update c = Inr c'"
    using update_ok widths_no_wrap(3) [OF assms(1)] by blast
  have "sint (SrvID c) < 2 ^ 63" using sint_lt [of "SrvID c"] by simp
  with assms(2) have "(2::int) ^ unat (SrvLen c) < 2 ^ 63" by linarith
  then have "unat (SrvLen c) < 63" by (rule pow_lt_63)
  then have "sint (maxSrv c') < sint (SrvID c')"
    using assms(2) by (simp add: update_fields [OF c'] sint_mask_lt)
  then show ?thesis
    by (simp add: NewUidGenerator_def c' word_sless_alt)
qed

theorem NewUidGenerator_server_id_too_big_witness:
  "unat (EpochLen (SnowflakeConfig\<lparr>SrvID := 1024\<rparr>)) + unat (SrvLen (SnowflakeConfig\<lparr>SrvID := 1024\<rparr>))
     + unat (CntLen (SnowflakeConfig\<lparr>SrvID := 1024\<rparr>)) \<le> 64
   \<and> 2 ^ unat (SrvLen (SnowflakeConfig\<lparr>SrvID := 1024\<rparr>)) \<le> sint (SrvID (SnowflakeConfig\<lparr>SrvID := 1024\<rparr>))
   \<and> NewUidGenerator (SnowflakeConfig\<lparr>SrvID := 1024\<rparr>) 0 = Inl ErrTooBigServerID"
proof -
  let ?c = "SnowflakeConfig\<lparr>SrvID := 1024\<rparr>"
  have h1: "unat (EpochLen ?c) + unat (SrvLen ?c) + unat (CntLen ?c) \<le> 64"
    by (simp add: SnowflakeConfig_def)
  have h2: "2 ^ unat (SrvLen ?c) \<le> sint (SrvID ?c)"
    by (simp add: SnowflakeConfig_def)
  from h1 h2 NewUidGenerator_server_id_too_big [OF h1 h2, of 0] show ?thesis by blast
qed

text \<open>
  C3. The claim: a configuration whose widths sum, as integers, to more than 64 is
  refused with \<open>ErrTooLongID\<close>. The code adds the widths as \<open>uint8\<close>: for the widths 200,
  10 and 46 the integer sum is 256, the \<open>uint8\<close> sum is 0, the check passes and a
  generator is returned.
\<close>

theorem NewUidGenerator_accepts_wrapped_width_sum:
  "unat (200 :: uint8) + unat (10 :: uint8) + unat (46 :: uint8) = 256
   \<and> (200 :: uint8) + 10 + 46 = 0
   \<and> (\<exists>gen. NewUidGenerator (SnowflakeConfig\<lparr>EpochLen := 200, SrvLen := 10, CntLen := 46\<rparr>) 0
          = Inr gen)"
  by (simp add: NewUidGenerator_def update_def SnowflakeConfig_def Let_def word_sless_alt)




section \<open>The server field of issued IDs\<close>

text \<open>
  With all 64 bits given to the server field, \<open>int64(cfg.maxSrv)\<close> is \<open>-1\<close> and the
  server identity 0 is refused.
\<close>

lemma NewUidGenerator_refuses_zero_at_width_64:
  "NewUidGenerator (SnowflakeConfig\<lparr>EpochLen := 0, SrvLen := 64, CntLen := 0, SrvID := 0\<rparr>) prevID
     = Inl ErrTooBigServerID"
  by (simp add: NewUidGenerator_def update_def SnowflakeConfig_def Let_def word_sless_alt)

text \<open>
  C6. The claim: for widths summing to at most 64 and \<open>0 \<le> SrvID < 2 ^ SrvLen\<close>,
  construction succeeds and \<open>ServerID\<close> of every issued ID is \<open>SrvID\<close>. For the widths 0, 63
  and 1 and the server identity \<open>2 ^ 62\<close> construction succeeds, the first ID has bit 63
  set, and \<open>ServerID\<close>, which shifts the masked ID as an \<open>int64\<close>, returns \<open>- (2 ^ 62)\<close>.
\<close>

theorem ServerID_of_issued_ID_negative:
  "\<exists>gen. NewUidGenerator
          (SnowflakeConfig\<lparr>EpochLen := 0, SrvLen := 63, CntLen := 1, SrvID := 4611686018427387904\<rparr>) 0
          = Inr gen
     \<and> fst (NextID 0 gen) = 9223372036854775809
     \<and> sint (ServerID gen (fst (NextID 0 gen))) = - 4611686018427387904"
  by (simp add: NewUidGenerator_def update_def SnowflakeConfig_def Let_def NextID_def
      candidateEpoch_def ServerID_def word_sless_alt)

section \<open>Decoding strings\<close>

text \<open>
  C2. The claim: a string with a character outside the alphabet, such as \<open>??\<close>, is
  refused with \<open>ErrInvalidStringUID\<close>. The first loop of \<open>init\<close> marks only the entries
  \<open>0 \<le> i < len(letters) = 32\<close> of \<open>decodeLetters\<close> with \<open>0xFF\<close>; the entry of \<open>?\<close> (63) stays
  0, the letter value of \<open>a\<close>, and \<open>??\<close> decodes to the ID 0 without an error, for every
  generator.
\<close>

theorem FromBase32_accepts_question_marks: "FromBase32 gen ''??'' = (0, None)"
  by (simp add: FromBase32_def FromBase32_decode_qq FromBase32_pad_zero)

section \<open>Time conversions of aligned times\<close>

text \<open>
  C8 as stated fails for a time before \<open>EpochStart\<close>: with the Snowflake configuration
  the time \<open>EpochStart - 2048\<close> is aligned (\<open>2048 * 10^9\<close> is a multiple of \<open>2^20\<close>), but the
  difference is converted to an unsigned value and \<open>Unix (FromUnix t)\<close> is 5900518944.
\<close>

theorem Unix_FromUnix_before_start:
  "\<not> isl (NewUidGenerator SnowflakeConfig 0)
   \<and> (2::int) ^ unat (IntervalLen (cfg (projr (NewUidGenerator SnowflakeConfig 0))))
        dvd (sint (1288832926 :: int64)
             - sint (EpochStart (cfg (projr (NewUidGenerator SnowflakeConfig 0))))) * 10 ^ 9
   \<and> Unix (projr (NewUidGenerator SnowflakeConfig 0))
        (FromUnix (projr (NewUidGenerator SnowflakeConfig 0)) 1288832926) = 5900518944
   \<and> Unix (projr (NewUidGenerator SnowflakeConfig 0))
        (FromUnix (projr (NewUidGenerator SnowflakeConfig 0)) 1288832926) \<noteq> 1288832926"
proof -
  let ?g = "projr (NewUidGenerator SnowflakeConfig 0)"
  have a: "\<not> isl (NewUidGenerator SnowflakeConfig 0)"
    by (subst snowflake_generator(1)) simp
  have b: "(2::int) ^ unat (IntervalLen (cfg ?g))
      dvd (sint (1288832926 :: int64) - sint (EpochStart (cfg ?g))) * 10 ^ 9"
    by (simp only: snowflake_generator(2-5)) (simp add: SnowflakeConfig_def)
  have c: "Unix ?g (FromUnix ?g 1288832926) = 5900518944"
    by (simp only: Unix_def FromUnix_def Let_def snowflake_generator(2-5))
      (simp add: SnowflakeConfig_def signed_divide_int_def signed_modulo_int_def)
  from a b c show ?thesis by simp
qed

text \<open>
  C8, amended. For a generator built from a configuration whose widths sum, as
  integers, to at most 64 and whose \<open>SrvID\<close> is not negative, and a time \<open>t\<close> (seconds) not
  before \<open>EpochStart\<close> and aligned to the interval granularity (\<open>(t - EpochStart) * 10^9\<close> is
  a multiple of \<open>2 ^ IntervalLen\<close>), such that the nanoseconds \<open>(t - EpochStart) * 10^9\<close> are
  below \<open>2^63\<close> and the tick count shifted left by \<open>epochShift\<close> is below \<open>2^64\<close>:
  \<open>Unix (FromUnix t) = t\<close>.
\<close>

theorem Unix_FromUnix_aligned:
  assumes ok: "NewUidGenerator c prevID = Inr gen"
    and widths: "unat (EpochLen c) + unat (SrvLen c) + unat (CntLen c) \<le> 64"
    and nonneg: "0 \<le>s SrvID c"
    and after: "sint (EpochStart c) \<le> sint t"
    and aligned: "2 ^ unat (IntervalLen (cfg gen)) dvd nat (sint t - sint (EpochStart c)) * 10 ^ 9"
    and nsec_fits: "nat (sint t - sint (EpochStart c)) * 10 ^ 9 < 2 ^ 63"
    and ticks_fit: "nat (sint t - sint (EpochStart c)) * 10 ^ 9 div 2 ^ unat (IntervalLen (cfg gen))
        * 2 ^ unat (epochShift (cfg gen)) < 2 ^ 64"
  shows "Unix gen (FromUnix gen t) = t"
proof -
  let ?I = "unat (IntervalLen (cfg gen))" and ?sh = "unat (epochShift (cfg gen))"
  let ?D = "nat (sint t - sint (EpochStart c))"
  let ?N = "?D * 10 ^ 9"
  let ?T = "?N div 2 ^ ?I"
  let ?x = "t - EpochStart c"
  note lay = valid_layout [OF ok widths nonneg]
  have ES: "EpochStart (cfg gen) = EpochStart c" by (rule update_fields(5) [OF lay(1)])
  have sh: "?sh = unat (SrvLen c) + unat (CntLen c)" by (rule lay(2))
  have k0: "0 \<le> sint t - sint (EpochStart c)" using after by simp
  have ux: "unat ?x = ?D" by (rule unat_sub_sint [OF k0])
  have N64: "?N < 2 ^ 64" using nsec_fits by simp
  have "unat (?x * 1000000000) = unat ?x * unat (1000000000 :: 64 word)"
    by (rule unat_mult_fits) (use N64 ux in simp)
  then have uy: "unat (?x * 1000000000) = ?N" by (simp add: ux)
  have ut: "unat (drop_bit ?I (?x * 1000000000)) = ?T"
    by (simp only: unat_drop_bit64 uy)
  have ue: "unat (push_bit ?sh (drop_bit ?I (?x * 1000000000))) = ?T * 2 ^ ?sh"
    by (rule trans [OF unat_push_bit_fits]) (use ticks_fit ut in \<open>simp_all only:\<close>)
  have s_lt: "unat (srvID gen) < 2 ^ ?sh"
  proof -
    have "(0::nat) < 2 ^ unat (CntLen c)" by simp
    with lay(6) show ?thesis by (simp only: sh)
  qed
  have "?sh \<le> 64" using widths sh by simp
  then have "(2::nat) ^ ?sh dvd 2 ^ 64" by (rule le_imp_power_dvd)
  moreover have "(2::nat) ^ ?sh dvd ?T * 2 ^ ?sh" by simp
  ultimately have "?T * 2 ^ ?sh + 2 ^ ?sh \<le> 2 ^ 64"
    using ticks_fit by (intro dvd_step_le)
  with s_lt have sum_lt: "?T * 2 ^ ?sh + unat (srvID gen) < 2 ^ 64" by linarith
  have uid: "unat (FromUnix gen t) = ?T * 2 ^ ?sh + unat (srvID gen)"
    unfolding FromUnix_def ES
    by (rule trans [OF unat_add_fits]) (use sum_lt ue in \<open>simp_all only:\<close>)
  have "unat (drop_bit ?sh (FromUnix gen t)) = (?T * 2 ^ ?sh + unat (srvID gen)) div 2 ^ ?sh"
    by (simp only: unat_drop_bit64 uid)
  also have "\<dots> = ?T" using s_lt by simp
  finally have ud: "unat (drop_bit ?sh (FromUnix gen t)) = ?T" .
  have TN: "?T * 2 ^ ?I = ?N" using aligned by (rule dvd_div_mult_self)
  have un: "unat (push_bit ?I (drop_bit ?sh (FromUnix gen t))) = ?N"
    by (rule trans [OF unat_push_bit_fits]) (use N64 ud TN in \<open>simp_all only:\<close>)
  then have sn: "sint (push_bit ?I (drop_bit ?sh (FromUnix gen t))) = int ?N"
    using nsec_fits by (simp only: sint_small)
  have q: "int ?N sdiv 1000000000 = int ?D"
    by (subst sdiv_nonneg) simp_all
  have r: "int ?N smod 1000000000 = 0"
    by (subst smod_nonneg) simp_all
  have quot: "sint (push_bit ?I (drop_bit ?sh (FromUnix gen t))) sdiv 1000000000 = int ?D"
    by (simp only: sn q)
  have rem: "sint (push_bit ?I (drop_bit ?sh (FromUnix gen t))) smod 1000000000 = 0"
    by (simp only: sn r)
  have w: "word_of_int (int ?D) = ?x" using k0 by simp
  show ?thesis unfolding Unix_def Let_def ES quot rem w by simp
qed

theorem Unix_FromUnix_aligned_witness:
  "NewUidGenerator SnowflakeConfig 0 = Inr (projr (NewUidGenerator SnowflakeConfig 0))
   \<and> unat (EpochLen SnowflakeConfig) + unat (SrvLen SnowflakeConfig) + unat (CntLen SnowflakeConfig) \<le> 64
   \<and> 0 \<le>s SrvID SnowflakeConfig
   \<and> sint (EpochStart SnowflakeConfig) \<le> sint (1288837022 :: int64)
   \<and> 2 ^ unat (IntervalLen (cfg (projr (NewUidGenerator SnowflakeConfig 0))))
        dvd nat (sint (1288837022 :: int64) - sint (EpochStart SnowflakeConfig)) * 10 ^ 9
   \<and> nat (sint (1288837022 :: int64) - sint (EpochStart SnowflakeConfig)) * 10 ^ 9 < 2 ^ 63
   \<and> nat (sint (1288837022 :: int64) - sint (EpochStart SnowflakeConfig)) * 10 ^ 9
        div 2 ^ unat (IntervalLen (cfg (projr (NewUidGenerator SnowflakeConfig 0))))
        * 2 ^ unat (epochShift (cfg (projr (NewUidGenerator SnowflakeConfig 0)))) < 2 ^ 64
   \<and> Unix (projr (NewUidGenerator SnowflakeConfig 0))
        (FromUnix (projr (NewUidGenerator SnowflakeConfig 0)) 1288837022) = 1288837022"
proof -
  let ?g = "projr (NewUidGenerator SnowflakeConfig 0)"
  let ?t = "1288837022 :: int64"
  have h1: "NewUidGenerator SnowflakeConfig 0 = Inr ?g" by (rule snowflake_generator(1))
  have h2: "unat (EpochLen SnowflakeConfig) + unat (SrvLen SnowflakeConfig) + unat (CntLen SnowflakeConfig) \<le> 64"
    by (simp add: SnowflakeConfig_def)
  have h3: "0 \<le>s SrvID SnowflakeConfig" by (simp add: SnowflakeConfig_def word_sle_eq)
  have h4: "sint (EpochStart SnowflakeConfig) \<le> sint ?t" by (simp add: SnowflakeConfig_def)
  have h5: "2 ^ unat (IntervalLen (cfg ?g)) dvd nat (sint ?t - sint (EpochStart SnowflakeConfig)) * 10 ^ 9"
    by (simp only: snowflake_generator(2-5)) (simp add: SnowflakeConfig_def)
  have h6: "nat (sint ?t - sint (EpochStart SnowflakeConfig)) * 10 ^ 9 < 2 ^ 63"
    by (simp add: SnowflakeConfig_def)
  have h7: "nat (sint ?t - sint (EpochStart SnowflakeConfig)) * 10 ^ 9 div 2 ^ unat (IntervalLen (cfg ?g))
        * 2 ^ unat (epochShift (cfg ?g)) < 2 ^ 64"
    by (simp only: snowflake_generator(2-5)) (simp add: SnowflakeConfig_def)
  from Unix_FromUnix_aligned [OF h1 h2 h3 h4 h5 h6 h7] h1 h2 h3 h4 h5 h6 h7
  show ?thesis by (intro conjI)
qed

section \<open>Order of the issued IDs\<close>

text \<open>
  C1 as stated fails. With the widths 42, 10 and 12 (64 bits) and the previous ID
  \<open>2 ^ 64 - 2\<close>, whose epoch field is full, the second call exhausts the counter, the stored
  epoch plus one quantum wraps to 0 and the IDs are \<open>2 ^ 64 - 4190209\<close>, then 0. With the
  Snowflake configuration and \<open>SrvID = -1\<close>, which \<open>NewUidGenerator\<close> accepts, the server field
  value has bits above its field and the ID drops when the clock advances by one
  interval. With the widths 8, 10 and 250, whose \<open>uint8\<close> sum passes the length check, the
  counter field covers the epoch field and the ID drops from 197 to 112.
\<close>

theorem NextID_decreasing_counterexample:
  "\<not> isl (NewUidGenerator (SnowflakeConfig\<lparr>EpochLen := 42\<rparr>) 18446744073709551614)
   \<and> fst (NextIDs (projr (NewUidGenerator (SnowflakeConfig\<lparr>EpochLen := 42\<rparr>) 18446744073709551614))
          [0, 0]) = [18446744073705361407, 0]
   \<and> \<not> sorted_wrt (\<le>)
        (fst (NextIDs (projr (NewUidGenerator (SnowflakeConfig\<lparr>EpochLen := 42\<rparr>) 18446744073709551614))
          [0, 0]))
   \<and> \<not> isl (NewUidGenerator (SnowflakeConfig\<lparr>SrvID := - 1\<rparr>) 0)
   \<and> fst (NextIDs (projr (NewUidGenerator (SnowflakeConfig\<lparr>SrvID := - 1\<rparr>) 0)) [0, 1048576])
       = [18446744073709547521, 4190208]
   \<and> \<not> sorted_wrt (\<le>)
        (fst (NextIDs (projr (NewUidGenerator (SnowflakeConfig\<lparr>SrvID := - 1\<rparr>) 0)) [0, 1048576]))
   \<and> \<not> isl (NewUidGenerator (SnowflakeConfig\<lparr>EpochLen := 8, SrvLen := 10, CntLen := 250\<rparr>) 100)
   \<and> fst (NextIDs (projr (NewUidGenerator
          (SnowflakeConfig\<lparr>EpochLen := 8, SrvLen := 10, CntLen := 250\<rparr>) 100)) [0, 7340032])
       = [197, 112]
   \<and> \<not> sorted_wrt (\<le>)
        (fst (NextIDs (projr (NewUidGenerator
          (SnowflakeConfig\<lparr>EpochLen := 8, SrvLen := 10, CntLen := 250\<rparr>) 100)) [0, 7340032]))"
  by code_simp

text \<open>
  C1, amended. For a generator built from a configuration whose widths sum, as
  integers, to at most 64 and whose \<open>SrvID\<close> is not negative, and a sequence of calls of
  \<open>NextID\<close> with arbitrary clock readings (standing still or going backward included) of
  which none overflows the 64 bits of the ID, the returned IDs are non-decreasing, and no
  ID is returned twice.
\<close>

theorem NextID_increasing_without_overflow:
  assumes ok: "NewUidGenerator c prevID = Inr gen"
    and widths: "unat (EpochLen c) + unat (SrvLen c) + unat (CntLen c) \<le> 64"
    and nonneg: "0 \<le>s SrvID c"
    and free: "overflow_free gen ts"
  shows "sorted_wrt (\<le>) (fst (NextIDs gen ts)) \<and> distinct (fst (NextIDs gen ts))"
proof -
  have "gen_inv gen" by (rule gen_inv_init [OF ok widths])
  moreover have "srv_fits gen" by (rule srv_fits_init [OF ok widths nonneg])
  ultimately have "sorted_wrt (<) (fst (NextIDs gen ts))"
    using free NextIDs_increasing by blast
  then show ?thesis using strict_sorted_iff [of "fst (NextIDs gen ts)"] by simp
qed

theorem NextID_increasing_without_overflow_witness:
  "NewUidGenerator SnowflakeConfig 0 = Inr (projr (NewUidGenerator SnowflakeConfig 0))
   \<and> unat (EpochLen SnowflakeConfig) + unat (SrvLen SnowflakeConfig) + unat (CntLen SnowflakeConfig) \<le> 64
   \<and> 0 \<le>s SrvID SnowflakeConfig
   \<and> overflow_free (projr (NewUidGenerator SnowflakeConfig 0)) [0, 0, 1048576, 5]
   \<and> fst (NextIDs (projr (NewUidGenerator SnowflakeConfig 0)) [0, 0, 1048576, 5])
       = [1, 2, 4194304, 4194305]
   \<and> sorted_wrt (\<le>) (fst (NextIDs (projr (NewUidGenerator SnowflakeConfig 0)) [0, 0, 1048576, 5]))
   \<and> distinct (fst (NextIDs (projr (NewUidGenerator SnowflakeConfig 0)) [0, 0, 1048576, 5]))"
proof -
  let ?g = "projr (NewUidGenerator SnowflakeConfig 0)"
  have h1: "NewUidGenerator SnowflakeConfig 0 = Inr ?g" by (rule snowflake_generator(1))
  have h2: "unat (EpochLen SnowflakeConfig) + unat (SrvLen SnowflakeConfig) + unat (CntLen SnowflakeConfig) \<le> 64"
    by (simp add: SnowflakeConfig_def)
  have h3: "0 \<le>s SrvID SnowflakeConfig" by (simp add: SnowflakeConfig_def word_sle_eq)
  have h4: "overflow_free ?g [0, 0, 1048576, 5]"
    by (simp add: NewUidGenerator_def update_def SnowflakeConfig_def Let_def NextID_def
        candidateEpoch_def overflows_def word_sless_alt)
  have v: "fst (NextIDs ?g [0, 0, 1048576, 5]) = [1, 2, 4194304, 4194305]"
    by (simp add: NewUidGenerator_def update_def SnowflakeConfig_def Let_def NextID_def
        candidateEpoch_def word_sless_alt)
  from NextID_increasing_without_overflow [OF h1 h2 h3 h4] h1 h2 h3 h4 v
  show ?thesis by (intro conjI) simp_all
qed

section \<open>Exhaustion of the counter\<close>

text \<open>
  C5 as stated fails. With the Snowflake configuration, \<open>SrvID = -1\<close> and the previous ID
  4095, the call exhausts the counter and stores the epoch \<open>2 ^ 22\<close>, but the server field
  value reaches into the epoch field and the epoch field of the returned ID is 0. With
  the Snowflake configuration and the previous ID \<open>2 ^ 63 - 1\<close>, whose epoch field is full,
  the stored epoch plus one quantum is \<open>2 ^ 63\<close>, outside the epoch field, and the epoch
  field of the returned ID is 0. With the widths 0, 63 and 1 the quantum is 0: three calls
  within one tick return 1, 0 and 1, more than \<open>2 ^ CntLen = 2\<close> IDs for that tick.
\<close>

theorem counter_exhaustion_counterexample:
  "(candidateEpoch (projr (NewUidGenerator (SnowflakeConfig\<lparr>SrvID := - 1\<rparr>) 4095)) 0
       \<le> epoch (projr (NewUidGenerator (SnowflakeConfig\<lparr>SrvID := - 1\<rparr>) 4095))
   \<and> maxCnt (cfg (projr (NewUidGenerator (SnowflakeConfig\<lparr>SrvID := - 1\<rparr>) 4095)))
       < cnt (projr (NewUidGenerator (SnowflakeConfig\<lparr>SrvID := - 1\<rparr>) 4095)) + 1
   \<and> fst (NextID 0 (projr (NewUidGenerator (SnowflakeConfig\<lparr>SrvID := - 1\<rparr>) 4095)))
       AND epochMask (cfg (projr (NewUidGenerator (SnowflakeConfig\<lparr>SrvID := - 1\<rparr>) 4095))) = 0
   \<and> epoch (projr (NewUidGenerator (SnowflakeConfig\<lparr>SrvID := - 1\<rparr>) 4095))
       + epochIota (cfg (projr (NewUidGenerator (SnowflakeConfig\<lparr>SrvID := - 1\<rparr>) 4095))) = 4194304)
   \<and> (candidateEpoch (projr (NewUidGenerator SnowflakeConfig 9223372036854775807)) 0
       \<le> epoch (projr (NewUidGenerator SnowflakeConfig 9223372036854775807))
   \<and> maxCnt (cfg (projr (NewUidGenerator SnowflakeConfig 9223372036854775807)))
       < cnt (projr (NewUidGenerator SnowflakeConfig 9223372036854775807)) + 1
   \<and> fst (NextID 0 (projr (NewUidGenerator SnowflakeConfig 9223372036854775807)))
       AND epochMask (cfg (projr (NewUidGenerator SnowflakeConfig 9223372036854775807))) = 0
   \<and> epoch (projr (NewUidGenerator SnowflakeConfig 9223372036854775807))
       + epochIota (cfg (projr (NewUidGenerator SnowflakeConfig 9223372036854775807)))
       = 9223372036854775808)
   \<and> (fst (NextIDs (projr (NewUidGenerator
          (SnowflakeConfig\<lparr>EpochLen := 0, SrvLen := 63, CntLen := 1\<rparr>) 0)) [0, 0, 0])
       = [1, 0, 1]
   \<and> count_list (map (drop_bit (unat (epochShift (cfg (projr (NewUidGenerator
          (SnowflakeConfig\<lparr>EpochLen := 0, SrvLen := 63, CntLen := 1\<rparr>) 0))))))
        (fst (NextIDs (projr (NewUidGenerator
          (SnowflakeConfig\<lparr>EpochLen := 0, SrvLen := 63, CntLen := 1\<rparr>) 0)) [0, 0, 0]))) 0
       = 3
   \<and> (2::nat) ^ unat (CntLen (SnowflakeConfig\<lparr>EpochLen := 0, SrvLen := 63, CntLen := 1\<rparr>)) = 2)"
proof -
  have a: "candidateEpoch (projr (NewUidGenerator (SnowflakeConfig\<lparr>SrvID := - 1\<rparr>) 4095)) 0
       \<le> epoch (projr (NewUidGenerator (SnowflakeConfig\<lparr>SrvID := - 1\<rparr>) 4095))
   \<and> maxCnt (cfg (projr (NewUidGenerator (SnowflakeConfig\<lparr>SrvID := - 1\<rparr>) 4095)))
       < cnt (projr (NewUidGenerator (SnowflakeConfig\<lparr>SrvID := - 1\<rparr>) 4095)) + 1
   \<and> fst (NextID 0 (projr (NewUidGenerator (SnowflakeConfig\<lparr>SrvID := - 1\<rparr>) 4095)))
       AND epochMask (cfg (projr (NewUidGenerator (SnowflakeConfig\<lparr>SrvID := - 1\<rparr>) 4095))) = 0
   \<and> epoch (projr (NewUidGenerator (SnowflakeConfig\<lparr>SrvID := - 1\<rparr>) 4095))
       + epochIota (cfg (projr (NewUidGenerator (SnowflakeConfig\<lparr>SrvID := - 1\<rparr>) 4095))) = 4194304"
    by code_simp
  have b: "candidateEpoch (projr (NewUidGenerator SnowflakeConfig 9223372036854775807)) 0
       \<le> epoch (projr (NewUidGenerator SnowflakeConfig 9223372036854775807))
   \<and> maxCnt (cfg (projr (NewUidGenerator SnowflakeConfig 9223372036854775807)))
       < cnt (projr (NewUidGenerator SnowflakeConfig 9223372036854775807)) + 1
   \<and> fst (NextID 0 (projr (NewUidGenerator SnowflakeConfig 9223372036854775807)))
       AND epochMask (cfg (projr (NewUidGenerator SnowflakeConfig 9223372036854775807))) = 0
   \<and> epoch (projr (NewUidGenerator SnowflakeConfig 9223372036854775807))
       + epochIota (cfg (projr (NewUidGenerator SnowflakeConfig 9223372036854775807)))
       = 9223372036854775808"
    by (simp add: NewUidGenerator_def update_def SnowflakeConfig_def Let_def NextID_def
        candidateEpoch_def word_sless_alt)
  have c: "fst (NextIDs (projr (NewUidGenerator
          (SnowflakeConfig\<lparr>EpochLen := 0, SrvLen := 63, CntLen := 1\<rparr>) 0)) [0, 0, 0])
       = [1, 0, 1]
   \<and> count_list (map (drop_bit (unat (epochShift (cfg (projr (NewUidGenerator
          (SnowflakeConfig\<lparr>EpochLen := 0, SrvLen := 63, CntLen := 1\<rparr>) 0))))))
        (fst (NextIDs (projr (NewUidGenerator
          (SnowflakeConfig\<lparr>EpochLen := 0, SrvLen := 63, CntLen := 1\<rparr>) 0)) [0, 0, 0]))) 0
       = 3
   \<and> (2::nat) ^ unat (CntLen (SnowflakeConfig\<lparr>EpochLen := 0, SrvLen := 63, CntLen := 1\<rparr>)) = 2"
    by (simp add: NewUidGenerator_def update_def SnowflakeConfig_def Let_def NextID_def
        candidateEpoch_def word_sless_alt)
  show ?thesis by (rule conjI [OF a conjI [OF b c]])
qed

text \<open>
  C5, amended. For a generator built from a configuration whose widths sum, as
  integers, to at most 64 and whose \<open>SrvID\<close> is not negative, in any state reached by calls of
  \<open>NextID\<close>: a call in which the candidate epoch is at most the stored epoch, the incremented
  counter exceeds \<open>maxCnt\<close> and the stored epoch is below the maximum \<open>epochMask\<close> of the epoch
  field returns an ID whose epoch field (the ID under \<open>epochMask\<close>) is the stored epoch plus
  \<open>epochIota\<close> and whose counter field is 0. And in a sequence of calls of which none
  overflows the 64 bits of the ID, at most \<open>2 ^ CntLen\<close> of the returned IDs have any one
  epoch tick (the ID shifted right by \<open>epochShift\<close>).
\<close>

theorem counter_exhaustion_advances_epoch:
  assumes ok: "NewUidGenerator c prevID = Inr gen"
    and widths: "unat (EpochLen c) + unat (SrvLen c) + unat (CntLen c) \<le> 64"
    and nonneg: "0 \<le>s SrvID c"
  shows "(\<forall>ts t. candidateEpoch (snd (NextIDs gen ts)) t \<le> epoch (snd (NextIDs gen ts))
            \<and> maxCnt (cfg gen) < cnt (snd (NextIDs gen ts)) + 1
            \<and> epoch (snd (NextIDs gen ts)) < epochMask (cfg gen)
          \<longrightarrow> fst (NextID t (snd (NextIDs gen ts))) AND epochMask (cfg gen)
                = epoch (snd (NextIDs gen ts)) + epochIota (cfg gen)
            \<and> Count gen (fst (NextID t (snd (NextIDs gen ts)))) = 0)
       \<and> (\<forall>ts k. overflow_free gen ts
          \<longrightarrow> count_list (map (drop_bit (unat (epochShift (cfg gen)))) (fst (NextIDs gen ts))) k
                \<le> 2 ^ unat (CntLen c))"
proof (intro conjI allI impI)
  have inv: "gen_inv gen" by (rule gen_inv_init [OF ok widths])
  have fits: "srv_fits gen" by (rule srv_fits_init [OF ok widths nonneg])
  have CL: "CntLen (cfg gen) = CntLen c" by (rule update_fields(3) [OF built_layout(1) [OF ok]])
  {
    fix ts t
    let ?g = "snd (NextIDs gen ts)"
    assume h: "candidateEpoch ?g t \<le> epoch ?g \<and> maxCnt (cfg gen) < cnt ?g + 1
        \<and> epoch ?g < epochMask (cfg gen)"
    have inv': "gen_inv ?g" by (rule gen_inv_NextIDs [OF inv])
    have fits': "srv_fits ?g" by (rule srv_fits_NextIDs [OF fits])
    have cand: "candidateEpoch ?g t \<le> epoch ?g" using h by blast
    have ex: "maxCnt (cfg ?g) < cnt ?g + 1" using h by (simp only: NextIDs_frame)
    have below: "epoch ?g < epochMask (cfg ?g)" using h by (simp only: NextIDs_frame)
    note r = exhausted_fields [OF inv' fits' cand ex below, unfolded NextIDs_frame]
    show "fst (NextID t ?g) AND epochMask (cfg gen) = epoch ?g + epochIota (cfg gen)"
      by (rule r(1))
    show "Count gen (fst (NextID t ?g)) = 0" by (simp only: Count_def r(2))
  }
  fix ts k
  assume free: "overflow_free gen ts"
  have "sorted_wrt (<) (fst (NextIDs gen ts))"
    using NextIDs_increasing [OF inv fits free] by (rule conjunct1)
  then have "distinct (fst (NextIDs gen ts))"
    using strict_sorted_iff [of "fst (NextIDs gen ts)"] by simp
  then have "count_list (map (drop_bit (unat (epochShift (cfg gen)))) (fst (NextIDs gen ts))) k
      \<le> 2 ^ unat (CntLen (cfg gen))"
    using issued_id_form [OF inv fits, of ts] by (rule count_per_tick)
  then show "count_list (map (drop_bit (unat (epochShift (cfg gen)))) (fst (NextIDs gen ts))) k
      \<le> 2 ^ unat (CntLen c)"
    by (simp only: CL)
qed

theorem counter_exhaustion_advances_epoch_witness:
  "NewUidGenerator SnowflakeConfig 4095 = Inr (projr (NewUidGenerator SnowflakeConfig 4095))
   \<and> unat (EpochLen SnowflakeConfig) + unat (SrvLen SnowflakeConfig) + unat (CntLen SnowflakeConfig) \<le> 64
   \<and> 0 \<le>s SrvID SnowflakeConfig
   \<and> candidateEpoch (snd (NextIDs (projr (NewUidGenerator SnowflakeConfig 4095)) [])) 0
       \<le> epoch (snd (NextIDs (projr (NewUidGenerator SnowflakeConfig 4095)) []))
   \<and> maxCnt (cfg (projr (NewUidGenerator SnowflakeConfig 4095)))
       < cnt (snd (NextIDs (projr (NewUidGenerator SnowflakeConfig 4095)) [])) + 1
   \<and> epoch (snd (NextIDs (projr (NewUidGenerator SnowflakeConfig 4095)) []))
       < epochMask (cfg (projr (NewUidGenerator SnowflakeConfig 4095)))
   \<and> fst (NextID 0 (snd (NextIDs (projr (NewUidGenerator SnowflakeConfig 4095)) [])))
         AND epochMask (cfg (projr (NewUidGenerator SnowflakeConfig 4095)))
       = epoch (snd (NextIDs (projr (NewUidGenerator SnowflakeConfig 4095)) []))
         + epochIota (cfg (projr (NewUidGenerator SnowflakeConfig 4095)))
   \<and> Count (projr (NewUidGenerator SnowflakeConfig 4095))
        (fst (NextID 0 (snd (NextIDs (projr (NewUidGenerator SnowflakeConfig 4095)) [])))) = 0
   \<and> overflow_free (projr (NewUidGenerator SnowflakeConfig 4095)) [0, 0]
   \<and> count_list (map (drop_bit (unat (epochShift (cfg (projr (NewUidGenerator SnowflakeConfig 4095))))))
        (fst (NextIDs (projr (NewUidGenerator SnowflakeConfig 4095)) [0, 0]))) 1
       \<le> 2 ^ unat (CntLen SnowflakeConfig)"
proof -
  let ?g = "projr (NewUidGenerator SnowflakeConfig 4095)"
  have h1: "NewUidGenerator SnowflakeConfig 4095 = Inr ?g"
    by (simp add: NewUidGenerator_def update_def SnowflakeConfig_def Let_def word_sless_alt)
  have h2: "unat (EpochLen SnowflakeConfig) + unat (SrvLen SnowflakeConfig) + unat (CntLen SnowflakeConfig) \<le> 64"
    by (simp add: SnowflakeConfig_def)
  have h3: "0 \<le>s SrvID SnowflakeConfig" by (simp add: SnowflakeConfig_def word_sle_eq)
  have h4: "candidateEpoch (snd (NextIDs ?g [])) 0 \<le> epoch (snd (NextIDs ?g []))
      \<and> maxCnt (cfg ?g) < cnt (snd (NextIDs ?g [])) + 1
      \<and> epoch (snd (NextIDs ?g [])) < epochMask (cfg ?g)"
    by (simp add: NewUidGenerator_def update_def SnowflakeConfig_def Let_def
        candidateEpoch_def word_sless_alt)
  have h5: "overflow_free ?g [0, 0]"
    by (simp add: NewUidGenerator_def update_def SnowflakeConfig_def Let_def NextID_def
        candidateEpoch_def overflows_def word_sless_alt)
  note r = counter_exhaustion_advances_epoch [OF h1 h2 h3]
  from r have r1: "fst (NextID 0 (snd (NextIDs ?g []))) AND epochMask (cfg ?g)
        = epoch (snd (NextIDs ?g [])) + epochIota (cfg ?g)
      \<and> Count ?g (fst (NextID 0 (snd (NextIDs ?g [])))) = 0"
    using h4 by blast
  from r have r2: "count_list (map (drop_bit (unat (epochShift (cfg ?g)))) (fst (NextIDs ?g [0, 0]))) 1
      \<le> 2 ^ unat (CntLen SnowflakeConfig)"
    using h5 by blast
  from h1 h2 h3 h4 h5 r1 r2 show ?thesis by (intro conjI) (simp_all only:)
qed

end
